theory Spec2Isabelle
  imports Complex_Main
begin

section \<open>Number model\<close>

text \<open>
  JavaScript numbers are modelled as exact reals: \<open>Math.PI\<close> is \<open>pi\<close>, \<open>Math.sqrt\<close>,
  \<open>Math.cos\<close>, \<open>Math.sin\<close> and \<open>Math.log\<close> are \<open>sqrt\<close>, \<open>cos\<close>, \<open>sin\<close> and \<open>ln\<close>.
  IEEE-754 rounding, infinities and NaN are not part of the model, and neither is the
  narrowing to 32 bits when a value is stored in a \<open>Float32Array\<close>.
\<close>

text \<open>\<open>Math.round\<close>: the nearest integer, a tie going up.\<close>

definition js_round :: "real \<Rightarrow> int" where
  "js_round v = \<lfloor>v + 1 / 2\<rfloor>"

section \<open>Airy engine (the gaussian-profile component)\<close>

text \<open>A chart sample, the object \<open>{ x: ..., y: ... }\<close> of the source.\<close>

record point =
  pt_x :: real
  pt_y :: real

text \<open>The reactive properties of the component that the numerical core reads.\<close>

record gaussian_profile =
  gp_na :: real
  gp_wavelength :: real
  gp_distance :: real
  gp_pixelSize :: real
  gp_pixelOffset :: real
  gp_noiseLevel :: real

subsection \<open>besselJ1 and airyDisk\<close>

definition besselJ1 :: "real \<Rightarrow> real" where
  "besselJ1 x =
     (if x = 0 then 0
      else
        let ax = \<bar>x\<bar> in
        if ax < 8 then
          let y = x * x;
              result = x * (72362614232 + y * (- 7895059235 + y *
                (242396853.1 + y * (- 2972611.439 + y * (15704.48260 + y *
                (- 30.16036606))))))
          in result / (144725228442 + y * (2300535178 + y *
                (18583304.74 + y * (99447.43394 + y * (376.9991397 + y)))))
        else
          let z = 8 / ax;
              y = z * z;
              xx = ax - 2.356194491;
              p1 = 1 + y * (0.00183105 + y * (- 0.00003516396496 +
                y * (0.000002457520174 + y * (- 0.000000240337019))));
              q1 = 0.04687499995 + y * (- 0.0002002690873 +
                y * (0.000008449199096 + y * (- 0.00000088228987 + y * 0.000000105787412)));
              result = sqrt (0.636619772 / ax) * (cos xx * p1 - z * sin xx * q1)
          in if x < 0 then - result else result)"

definition airyDisk :: "real \<Rightarrow> real \<Rightarrow> real \<Rightarrow> real \<Rightarrow> real" where
  "airyDisk r wavelength na center =
     (let rFromCenter = \<bar>r - center\<bar> in
      if rFromCenter = 0 then 1
      else
        let lambda = wavelength / 1000;
            x = (2 * pi / lambda) * na * rFromCenter;
            j1 = besselJ1 x;
            intensity = (2 * j1 / x) ^ 2
        in intensity)"

text \<open>The ranges of the wavelength and numerical-aperture sliders.\<close>

definition validOptics :: "real \<Rightarrow> real \<Rightarrow> bool" where
  "validOptics wavelength na \<longleftrightarrow>
     400 \<le> wavelength \<and> wavelength \<le> 700 \<and> 1 / 10 \<le> na \<and> na \<le> 14 / 10"

subsection \<open>generateAiryData\<close>

definition rMin :: real where "rMin = - 2"
definition rMax :: real where "rMax = 2"
definition numPoints :: nat where "numPoints = 300"

record airy_data =
  data1 :: "point list"
  data2 :: "point list"
  dataSum :: "point list"

text \<open>
  The \<open>for\<close> loop of \<open>generateAiryData\<close>, from index \<open>i\<close> on; \<open>acc\<close> holds the three
  arrays built so far and \<open>push\<close> appends at the end.
\<close>

function generateLoop ::
  "real \<Rightarrow> real \<Rightarrow> real \<Rightarrow> real \<Rightarrow> nat \<Rightarrow> airy_data \<Rightarrow> airy_data" where
  "generateLoop wavelength na pos1 pos2 i acc =
     (if i < numPoints then
        let rVal = rMin + (rMax - rMin) * real i / real (numPoints - 1);
            i1 = airyDisk rVal wavelength na pos1;
            i2 = airyDisk rVal wavelength na pos2;
            iSum = i1 + i2
        in generateLoop wavelength na pos1 pos2 (Suc i)
             \<lparr>data1 = data1 acc @ [\<lparr>pt_x = rVal, pt_y = i1\<rparr>],
              data2 = data2 acc @ [\<lparr>pt_x = rVal, pt_y = i2\<rparr>],
              dataSum = dataSum acc @ [\<lparr>pt_x = rVal, pt_y = iSum\<rparr>]\<rparr>
      else acc)"
  by pat_completeness auto
termination
  by (relation "measure (\<lambda>(wavelength, na, pos1, pos2, i, acc). numPoints - i)") auto

declare generateLoop.simps [simp del]

definition generateAiryData :: "real \<Rightarrow> real \<Rightarrow> real \<Rightarrow> airy_data" where
  "generateAiryData wavelength na distance =
     (let pos1 = - distance / 2;
          pos2 = distance / 2
      in generateLoop wavelength na pos1 pos2 0 \<lparr>data1 = [], data2 = [], dataSum = []\<rparr>)"

subsection \<open>gaussianRandom and discretizeData\<close>

text \<open>
  \<open>Math.random\<close> is a stream \<open>rnd\<close> of draws together with the index \<open>k\<close> of the next
  one; \<open>gaussianRandom\<close> consumes two draws, \<open>u1\<close> first.
\<close>

definition gaussianRandom :: "real \<Rightarrow> real \<Rightarrow> real \<Rightarrow> real \<Rightarrow> real" where
  "gaussianRandom u1 u2 mean stdDev =
     (let z0 = sqrt (- 2 * ln u1) * cos (2 * pi * u2) in z0 * stdDev + mean)"

text \<open>
  The first \<open>while\<close> loop of \<open>discretizeData\<close>. It is reached only behind the early
  return for \<open>pixelSize \<le> 0\<close>; the conjunct \<open>0 < pixelSize\<close> records that, and with it
  the recursion is total.
\<close>

function adjustStart :: "real \<Rightarrow> real \<Rightarrow> real" where
  "adjustStart pixelSize pixelStart =
     (if 0 < pixelSize \<and> pixelStart > rMin
      then adjustStart pixelSize (pixelStart - pixelSize)
      else pixelStart)"
  by pat_completeness auto
termination
proof (relation "measure (\<lambda>(pixelSize, pixelStart). nat \<lceil>(pixelStart - rMin) / pixelSize\<rceil>)")
  show "wf (measure (\<lambda>(pixelSize, pixelStart). nat \<lceil>(pixelStart - rMin) / pixelSize\<rceil>))"
    by simp
next
  fix pixelSize pixelStart :: real
  assume a: "0 < pixelSize \<and> pixelStart > rMin"
  have "(pixelStart - pixelSize - rMin) / pixelSize = (pixelStart - rMin) / pixelSize - 1"
    using a by (simp add: field_simps)
  moreover have "0 < (pixelStart - rMin) / pixelSize"
    using a by simp
  ultimately have "nat \<lceil>(pixelStart - pixelSize - rMin) / pixelSize\<rceil>
      < nat \<lceil>(pixelStart - rMin) / pixelSize\<rceil>"
    by (simp add: nat_less_iff)
  then show "((pixelSize, pixelStart - pixelSize), (pixelSize, pixelStart))
      \<in> measure (\<lambda>(pixelSize, pixelStart). nat \<lceil>(pixelStart - rMin) / pixelSize\<rceil>)"
    by simp
qed

declare adjustStart.simps [simp del]

text \<open>
  The second \<open>while\<close> loop, one pixel per round; \<open>discretized\<close> is the output array so
  far. The unused local \<open>pixelCenter\<close> is left out.
\<close>

function processPixels ::
  "point list \<Rightarrow> real \<Rightarrow> real \<Rightarrow> (nat \<Rightarrow> real) \<Rightarrow> nat \<Rightarrow> real \<Rightarrow> point list \<Rightarrow> point list"
  where
  "processPixels continuousData pixelSize noiseLevel rnd k pixelStart discretized =
     (if 0 < pixelSize \<and> pixelStart < rMax then
        let pixelEnd = pixelStart + pixelSize;
            pointsInPixel =
              filter (\<lambda>p. pt_x p \<ge> pixelStart \<and> pt_x p < pixelEnd) continuousData
        in if length pointsInPixel > 0 then
             let avg = foldl (\<lambda>sum p. sum + pt_y p) 0 pointsInPixel
                         / real (length pointsInPixel);
                 avgIntensity =
                   (if noiseLevel > 0
                    then avg + gaussianRandom (rnd k) (rnd (Suc k)) 0 noiseLevel
                    else avg);
                 k' = (if noiseLevel > 0 then k + 2 else k)
             in processPixels continuousData pixelSize noiseLevel rnd k' pixelEnd
                  (discretized @ [\<lparr>pt_x = pixelStart, pt_y = avgIntensity\<rparr>,
                                  \<lparr>pt_x = pixelEnd, pt_y = avgIntensity\<rparr>])
           else processPixels continuousData pixelSize noiseLevel rnd k pixelEnd discretized
      else discretized)"
  by pat_completeness auto
termination
proof (relation "measure (\<lambda>(continuousData, pixelSize, noiseLevel, rnd, k, pixelStart, discretized).
    nat \<lceil>(rMax - pixelStart) / pixelSize\<rceil>)", goal_cases)
  case 1
  show ?case by simp
next
  case (2 continuousData pixelSize noiseLevel rnd k pixelStart discretized)
  then have a: "0 < pixelSize" "pixelStart < rMax" by simp_all
  have "(rMax - (pixelStart + pixelSize)) / pixelSize = (rMax - pixelStart) / pixelSize - 1"
    using a by (simp add: field_simps)
  moreover have "0 < (rMax - pixelStart) / pixelSize"
    using a by simp
  ultimately have "nat \<lceil>(rMax - (pixelStart + pixelSize)) / pixelSize\<rceil>
      < nat \<lceil>(rMax - pixelStart) / pixelSize\<rceil>"
    by (simp add: nat_less_iff)
  with 2 show ?case by simp
next
  case (3 continuousData pixelSize noiseLevel rnd k pixelStart discretized)
  then have a: "0 < pixelSize" "pixelStart < rMax" by simp_all
  have "(rMax - (pixelStart + pixelSize)) / pixelSize = (rMax - pixelStart) / pixelSize - 1"
    using a by (simp add: field_simps)
  moreover have "0 < (rMax - pixelStart) / pixelSize"
    using a by simp
  ultimately have "nat \<lceil>(rMax - (pixelStart + pixelSize)) / pixelSize\<rceil>
      < nat \<lceil>(rMax - pixelStart) / pixelSize\<rceil>"
    by (simp add: nat_less_iff)
  with 3 show ?case by simp
qed

declare processPixels.simps [simp del]

definition discretizeData ::
  "point list \<Rightarrow> real \<Rightarrow> real \<Rightarrow> real \<Rightarrow> (nat \<Rightarrow> real) \<Rightarrow> point list" where
  "discretizeData continuousData pixelSize pixelOffset noiseLevel rnd =
     (if pixelSize \<le> 0 then []
      else
        let pixelStart = adjustStart pixelSize (- pixelOffset)
        in processPixels continuousData pixelSize noiseLevel rnd 0 pixelStart [])"

subsection \<open>Resolution criteria\<close>

definition calculateRayleigh :: "gaussian_profile \<Rightarrow> real" where
  "calculateRayleigh this = (let lambda = gp_wavelength this / 1000 in 0.61 * lambda / gp_na this)"

definition calculateAbbe :: "gaussian_profile \<Rightarrow> real" where
  "calculateAbbe this = (let lambda = gp_wavelength this / 1000 in 0.5 * lambda / gp_na this)"

definition calculateSparrow :: "gaussian_profile \<Rightarrow> real" where
  "calculateSparrow this = (let lambda = gp_wavelength this / 1000 in 0.47 * lambda / gp_na this)"

section \<open>Slit-diffraction engine (the diffraction-slit component)\<close>

text \<open>
  The reactive properties and the internal buffers of the component. \<open>ds_canvas\<close> and
  \<open>ds_ctx\<close> say whether \<open>this._canvas\<close> and \<open>this._ctx\<close> are set; a buffer is \<open>None\<close>
  while the source holds \<open>null\<close>.
\<close>

record diffraction_slit =
  ds_mode :: string
  ds_slitWidth :: real
  ds_slitSeparation :: real
  ds_wavelength :: real
  ds_renderMode :: string
  ds_highQuality :: bool
  ds_isPlaying :: bool
  ds_canvas :: bool
  ds_ctx :: bool
  ds_time :: real
  ds_res :: nat
  ds_hW :: nat
  ds_hBY :: nat
  ds_fieldReal :: "real list option"
  ds_fieldImag :: "real list option"
  ds_fieldAmp :: "real list option"
  ds_normScale :: real
  ds_sources :: "real list"

text \<open>The canvas layout set once by the constructor (\<open>_W\<close>, \<open>_H\<close>, \<open>_barrierY\<close>, \<open>_barrierH\<close>).\<close>

definition canvas_W :: nat where "canvas_W = 800"
definition canvas_H :: nat where "canvas_H = 384"
definition canvas_barrierY :: nat where "canvas_barrierY = 300"
definition canvas_barrierH :: nat where "canvas_barrierH = 4"

subsection \<open>updated\<close>

text \<open>
  \<open>changed\<close> is the set of names of the properties that changed. The timer and the
  animation loop are not run here; the calls made are returned in order.
\<close>

datatype effect = ScheduleRecompute | RenderFrame | StartAnimation | StopAnimation

definition updated :: "string set \<Rightarrow> diffraction_slit \<Rightarrow> diffraction_slit \<times> effect list" where
  "updated changed this =
     (let this1 =
            (if ds_mode this = ''double'' \<and> ds_slitSeparation this < ds_slitWidth this
             then (if ''slitWidth'' \<in> changed
                   then this\<lparr>ds_slitWidth := ds_slitSeparation this\<rparr>
                   else this\<lparr>ds_slitSeparation := ds_slitWidth this\<rparr>)
             else this);
          needsRecompute =
            [''slitWidth'', ''slitSeparation'', ''mode'', ''wavelength'', ''numSources'',
             ''highQuality''];
          e1 = (if list_ex (\<lambda>p. p \<in> changed) needsRecompute \<and> ds_canvas this1
                then [ScheduleRecompute] else []);
          e2 = (if ''renderMode'' \<in> changed \<or> ''waveletCount'' \<in> changed
                then (if \<not> ds_isPlaying this1 \<and> ds_canvas this1 then [RenderFrame] else [])
                else []);
          e3 = (if ''isPlaying'' \<in> changed
                then (if ds_isPlaying this1 then [StartAnimation] else [StopAnimation])
                else [])
      in (this1, e1 @ e2 @ e3))"

subsection \<open>Slit geometry\<close>

definition getSlitRanges :: "diffraction_slit \<Rightarrow> (real \<times> real) list" where
  "getSlitRanges this =
     (let lambda = ds_wavelength this;
          cx = real canvas_W / 2;
          sw = ds_slitWidth this * lambda
      in if ds_mode this = ''single'' then [(cx - sw / 2, cx + sw / 2)]
         else
           let sep = ds_slitSeparation this * lambda
           in [(cx - sep / 2 - sw / 2, cx - sep / 2 + sw / 2),
               (cx + sep / 2 - sw / 2, cx + sep / 2 + sw / 2)])"

subsection \<open>Field computation\<close>

text \<open>The source points: for each aperture, the loop over \<open>j\<close> pushes \<open>N\<close> positions.\<close>

definition pushSources :: "nat \<Rightarrow> real list \<Rightarrow> real \<times> real \<Rightarrow> real list" where
  "pushSources N sources slit =
     (case slit of (left, right) \<Rightarrow>
        let w = right - left
        in foldl (\<lambda>sources j. sources @ [left + (real j + 0.5) * (w / real N)])
             sources [0..<N])"

definition buildSources :: "nat \<Rightarrow> (real \<times> real) list \<Rightarrow> real list" where
  "buildSources N slitRanges = foldl (pushSources N) [] slitRanges"

text \<open>The innermost loop: one source's wavelet added to the running sums \<open>uR\<close>, \<open>uI\<close>.\<close>

definition addWavelet :: "real \<Rightarrow> real \<Rightarrow> real \<Rightarrow> real \<Rightarrow> real \<times> real \<Rightarrow> real \<Rightarrow> real \<times> real" where
  "addWavelet k dy dy2 cx u src =
     (case u of (uR, uI) \<Rightarrow>
        let dx = cx - src;
            r = sqrt (dx * dx + dy2);
            amp = dy / (r * sqrt r);
            phase = k * r
        in (uR + amp * cos phase, uI + amp * sin phase))"

text \<open>The three arrays being filled and the running maximum.\<close>

record field_acc =
  fR :: "real list"
  fI :: "real list"
  fA :: "real list"
  maxAmp :: real

text \<open>The body of the loop over \<open>hx\<close>: one grid cell.\<close>

definition computeCell ::
  "real \<Rightarrow> real \<Rightarrow> real list \<Rightarrow> nat \<Rightarrow> real \<Rightarrow> real \<Rightarrow> nat \<Rightarrow> field_acc \<Rightarrow> nat \<Rightarrow> field_acc" where
  "computeCell k dxSrc sources res dy dy2 rowOff acc hx =
     (let cx = real (hx * res);
          u = foldl (addWavelet k dy dy2 cx) (0, 0) sources;
          uR = fst u * dxSrc;
          uI = snd u * dxSrc;
          idx = rowOff + hx;
          a = sqrt (uR * uR + uI * uI)
      in acc\<lparr>fR := (fR acc)[idx := uR],
              fI := (fI acc)[idx := uI],
              fA := (fA acc)[idx := a],
              maxAmp := (if a > maxAmp acc then a else maxAmp acc)\<rparr>)"

text \<open>The body of the loop over \<open>hy\<close>: one grid row, skipped when \<open>dy < 2\<close>.\<close>

definition computeRow ::
  "real \<Rightarrow> real \<Rightarrow> real list \<Rightarrow> nat \<Rightarrow> nat \<Rightarrow> field_acc \<Rightarrow> nat \<Rightarrow> field_acc" where
  "computeRow k dxSrc sources res hW acc hy =
     (let cy = hy * res;
          dy = real canvas_barrierY - real cy
      in if dy < 2 then acc
         else
           let dy2 = dy * dy;
               rowOff = hy * hW
           in foldl (computeCell k dxSrc sources res dy dy2 rowOff) acc [0..<hW])"

definition computeField :: "diffraction_slit \<Rightarrow> diffraction_slit" where
  "computeField this =
     (let W = canvas_W;
          barrierY = canvas_barrierY;
          lambda = ds_wavelength this;
          k = (2 * pi) / lambda;
          res = (if ds_highQuality this then 1 else 2);
          N = nat (max 10 (js_round (ds_slitWidth this * 12)));
          slitRanges = getSlitRanges this;
          sources = buildSources N slitRanges;
          dxSrc = (ds_slitWidth this * lambda) / real N;
          hW = nat \<lceil>real W / real res\<rceil>;
          hBY = nat \<lceil>real barrierY / real res\<rceil>;
          totalPx = hBY * hW;
          acc = foldl (computeRow k dxSrc sources res hW)
                  \<lparr>fR = replicate totalPx 0, fI = replicate totalPx 0,
                   fA = replicate totalPx 0, maxAmp = 0\<rparr> [0..<hBY]
      in this\<lparr>ds_res := res, ds_hW := hW, ds_hBY := hBY,
               ds_fieldReal := Some (fR acc), ds_fieldImag := Some (fI acc),
               ds_fieldAmp := Some (fA acc),
               ds_normScale := (if maxAmp acc > 0 then 1 / maxAmp acc else 1),
               ds_sources := sources\<rparr>)"

subsection \<open>Rendering\<close>

definition clamp :: "real \<Rightarrow> real \<Rightarrow> real \<Rightarrow> real" where
  "clamp v lo hi = (if v < lo then lo else if v > hi then hi else v)"

definition wavefrontGray :: "real \<Rightarrow> real \<Rightarrow> int" where
  "wavefrontGray field amp =
     (if amp < 0.005 then 0
      else
        let nf = field / amp;
            crest = max 0 ((nf - 0.6) / 0.4);
            af = min 1 (amp * 3)
        in js_round (crest * af * 255))"

text \<open>
  The slit membership mask, a \<open>Uint8Array\<close> of \<open>W\<close> zeros in which the columns from
  \<open>lo\<close> up to \<open>hi - 1\<close> of every aperture are set.
\<close>

definition markSlit :: "nat \<Rightarrow> bool list \<Rightarrow> real \<times> real \<Rightarrow> bool list" where
  "markSlit W slitMask slit =
     (case slit of (l, r) \<Rightarrow>
        let lo = max 0 \<lfloor>l\<rfloor>;
            hi = min (int W) \<lceil>r\<rceil>
        in foldl (\<lambda>m x. m[nat x := True]) slitMask [lo..hi - 1])"

definition buildSlitMask :: "nat \<Rightarrow> (real \<times> real) list \<Rightarrow> bool list" where
  "buildSlitMask W slitRanges = foldl (markSlit W) (replicate W False) slitRanges"

text \<open>
  A read of a typed array: \<open>None\<close> outside the buffer, where the source gets
  \<open>undefined\<close> and every number computed from it is NaN.
\<close>

definition f32_read :: "real list \<Rightarrow> nat \<Rightarrow> real option" where
  "f32_read buf i = (if i < length buf then Some (buf ! i) else None)"

text \<open>
  What the frame loop writes for one pixel: the value of \<open>gray\<close> (before the image
  buffer rounds it), the fixed colour of the opaque barrier, or \<open>OutOfRange\<close> when a
  field buffer was read outside its bounds (the model does not follow the NaN further).
\<close>

datatype pixel = Gray real | BarrierFill | OutOfRange

definition renderPixel ::
  "diffraction_slit \<Rightarrow> real list \<Rightarrow> real list \<Rightarrow> real list \<Rightarrow> bool list \<Rightarrow> nat \<Rightarrow> nat \<Rightarrow> pixel"
  where
  "renderPixel this fieldReal fieldImag fieldAmp slitMask cx cy =
     (let lambda = ds_wavelength this;
          k = (2 * pi) / lambda;
          omega = k;
          t = ds_time this;
          barrierY = canvas_barrierY;
          barrierBot = barrierY + canvas_barrierH;
          norm = ds_normScale this;
          res = ds_res this;
          hW = ds_hW this;
          cosWt = cos (omega * t);
          sinWt = sin (omega * t);
          rm = ds_renderMode this;
          inSlit = (cx < length slitMask \<and> slitMask ! cx)
      in if cy < barrierY then
           let dy = barrierY - cy
           in if dy < 2 then Gray (if inSlit then 80 else 40)
              else
                let hx = cx div res;
                    hy = cy div res;
                    fi = hy * hW + hx
                in (case (f32_read fieldReal fi, f32_read fieldImag fi, f32_read fieldAmp fi) of
                      (Some re, Some im, Some am) \<Rightarrow>
                        let field = (re * cosWt + im * sinWt) * norm;
                            amp = am * norm
                        in if rm = ''intensity'' then Gray (128 + 127 * clamp field (- 1) 1)
                           else if rm = ''wavefronts''
                           then Gray (real_of_int (wavefrontGray field amp))
                           else Gray (50 + 30 * clamp field (- 1) 1)
                    | _ \<Rightarrow> OutOfRange)
         else if cy < barrierBot then
           (if inSlit then
              let f = cos (k * (real barrierBot - real cy) + omega * t)
              in if rm = ''intensity'' then Gray (128 + 127 * clamp f (- 1) 1)
                 else if rm = ''wavefronts'' then Gray (real_of_int (wavefrontGray f 1))
                 else Gray (50 + 30 * clamp f (- 1) 1)
            else BarrierFill)
         else
           let f = cos (k * (real cy - real barrierBot) + omega * t)
           in if rm = ''intensity'' then Gray (128 + 127 * f)
              else if rm = ''wavefronts'' then Gray (real_of_int (wavefrontGray f 1))
              else Gray (50 + 30 * f))"

text \<open>
  \<open>_renderFrame\<close> up to \<open>putImageData\<close>: nothing is drawn without a context or a
  field; a missing imaginary or amplitude buffer would raise a TypeError at the first read.
  The image is the rows of pixels, row \<open>cy\<close> holding the columns \<open>cx\<close>. The overlays drawn
  afterwards with canvas calls are outside the model.
\<close>

datatype render_result = NoOp | TypeError | Frame "pixel list list"

definition renderFrame :: "diffraction_slit \<Rightarrow> render_result" where
  "renderFrame this =
     (if \<not> ds_ctx this then NoOp
      else
        case ds_fieldReal this of
          None \<Rightarrow> NoOp
        | Some fieldReal \<Rightarrow>
            (case (ds_fieldImag this, ds_fieldAmp this) of
               (Some fieldImag, Some fieldAmp) \<Rightarrow>
                 let slitMask = buildSlitMask canvas_W (getSlitRanges this)
                 in Frame (map (\<lambda>cy. map (\<lambda>cx.
                      renderPixel this fieldReal fieldImag fieldAmp slitMask cx cy)
                      [0..<canvas_W]) [0..<canvas_H])
             | _ \<Rightarrow> TypeError))"

section \<open>Vocabulary of the properties\<close>

text \<open>The position of sample \<open>i\<close>, the expression for \<open>rVal\<close> in \<open>generateAiryData\<close>.\<close>

definition samplePos :: "nat \<Rightarrow> real" where
  "samplePos i = rMin + (rMax - rMin) * real i / real (numPoints - 1)"

text \<open>The first concrete scenario: NA 1.0, 550 nm, objects 0.5 micrometres apart.\<close>

definition scenario1 :: gaussian_profile where
  "scenario1 = \<lparr>gp_na = 1, gp_wavelength = 550, gp_distance = 1 / 2, gp_pixelSize = 0,
                 gp_pixelOffset = 0, gp_noiseLevel = 0\<rparr>"

text \<open>The component as its constructor leaves it, before a canvas is attached.\<close>

definition initialSlit :: diffraction_slit where
  "initialSlit =
     \<lparr>ds_mode = ''double'', ds_slitWidth = 1, ds_slitSeparation = 5, ds_wavelength = 20,
      ds_renderMode = ''intensity'', ds_highQuality = True, ds_isPlaying = True,
      ds_canvas = False, ds_ctx = False, ds_time = 0, ds_res = 0, ds_hW = 0, ds_hBY = 0,
      ds_fieldReal = None, ds_fieldImag = None, ds_fieldAmp = None, ds_normScale = 1,
      ds_sources = []\<rparr>"

text \<open>
  \<open>N\<close> evenly spaced points of one aperture: point \<open>j\<close> is the middle of the \<open>j\<close>-th of
  \<open>N\<close> equal parts of the aperture.
\<close>

definition apertureSources :: "nat \<Rightarrow> real \<times> real \<Rightarrow> real list" where
  "apertureSources N slit =
     (case slit of (left, right) \<Rightarrow>
        map (\<lambda>j. left + (real j + 1 / 2) * ((right - left) / real N)) [0..<N])"

text \<open>
  The three field arrays have length \<open>L\<close>, the running maximum is not negative, and
  every cell's amplitude is the modulus of its real and imaginary part.
\<close>

definition accOK :: "nat \<Rightarrow> field_acc \<Rightarrow> bool" where
  "accOK L acc \<longleftrightarrow>
     length (fR acc) = L \<and> length (fI acc) = L \<and> length (fA acc) = L \<and> 0 \<le> maxAmp acc
     \<and> (\<forall>m<L. fA acc ! m = sqrt (fR acc ! m * fR acc ! m + fI acc ! m * fI acc ! m))"

text \<open>The arrays and the maximum that \<open>computeField\<close> ends with.\<close>

definition fieldBuffers :: "diffraction_slit \<Rightarrow> field_acc" where
  "fieldBuffers this = 
     (let lambda = ds_wavelength this;
          k = (2 * pi) / lambda;
          res = (if ds_highQuality this then 1 else 2);
          N = nat (max 10 (js_round (ds_slitWidth this * 12)));
          sources = buildSources N (getSlitRanges this);
          dxSrc = (ds_slitWidth this * lambda) / real N;
          hW = nat \<lceil>real canvas_W / real res\<rceil>;
          hBY = nat \<lceil>real canvas_barrierY / real res\<rceil>
      in foldl (computeRow k dxSrc sources res hW)
                  \<lparr>fR = replicate (hBY * hW) 0, fI = replicate (hBY * hW) 0,
                   fA = replicate (hBY * hW) 0, maxAmp = 0\<rparr> [0..<hBY])"

text \<open>
  The buffers, the grid dimensions and the scale of \<open>this\<close> are those that
  \<open>computeField\<close> stored when the component was \<open>this0\<close>. The reactive properties may
  have changed since, as they do between a change and the debounced recomputation.
\<close>

definition fieldFrom :: "diffraction_slit \<Rightarrow> diffraction_slit \<Rightarrow> bool" where
  "fieldFrom this0 this \<longleftrightarrow>
     ds_res this = ds_res (computeField this0) \<and> ds_hW this = ds_hW (computeField this0)
     \<and> ds_hBY this = ds_hBY (computeField this0)
     \<and> ds_fieldReal this = ds_fieldReal (computeField this0)
     \<and> ds_fieldImag this = ds_fieldImag (computeField this0)
     \<and> ds_fieldAmp this = ds_fieldAmp (computeField this0)
     \<and> ds_normScale this = ds_normScale (computeField this0)"

text \<open>
  The grid cell read for the pixel \<open>(cx, cy)\<close>, and the field value and amplitude the
  renderer computes from it.
\<close>

definition cellIndex :: "diffraction_slit \<Rightarrow> nat \<Rightarrow> nat \<Rightarrow> nat" where
  "cellIndex this cx cy = (cy div ds_res this) * ds_hW this + cx div ds_res this"

definition cellField :: "diffraction_slit \<Rightarrow> nat \<Rightarrow> nat \<Rightarrow> real" where
  "cellField this cx cy =
     (the (ds_fieldReal this) ! cellIndex this cx cy
        * cos ((2 * pi) / ds_wavelength this * ds_time this)
      + the (ds_fieldImag this) ! cellIndex this cx cy
        * sin ((2 * pi) / ds_wavelength this * ds_time this))
     * ds_normScale this"

definition cellAmp :: "diffraction_slit \<Rightarrow> nat \<Rightarrow> nat \<Rightarrow> real" where
  "cellAmp this cx cy = the (ds_fieldAmp this) ! cellIndex this cx cy * ds_normScale this"

text \<open>A pixel that is the barrier colour or an integer gray level from 0 to 255.\<close>

definition validPixel :: "pixel \<Rightarrow> bool" where
  "validPixel p =
     (case p of
        Gray v \<Rightarrow> real_of_int \<lfloor>v\<rfloor> = v \<and> 0 \<le> v \<and> v \<le> 255
      | BarrierFill \<Rightarrow> True
      | OutOfRange \<Rightarrow> False)"

text \<open>
  The component after \<open>firstUpdated\<close>: canvas and context attached, the field computed
  from the constructor's values.
\<close>

definition readySlit :: diffraction_slit where
  "readySlit = (computeField initialSlit)\<lparr>ds_canvas := True, ds_ctx := True\<rparr>"

text \<open>
  The real and the imaginary part of one wavelet, as functions of the squared horizontal
  distance \<open>q = dx * dx\<close> between the cell and the source.
\<close>

definition waveletRe :: "real \<Rightarrow> real \<Rightarrow> real \<Rightarrow> real \<Rightarrow> real" where
  "waveletRe k dy dy2 q = (let r = sqrt (q + dy2) in dy / (r * sqrt r) * cos (k * r))"

definition waveletIm :: "real \<Rightarrow> real \<Rightarrow> real \<Rightarrow> real \<Rightarrow> real" where
  "waveletIm k dy dy2 q = (let r = sqrt (q + dy2) in dy / (r * sqrt r) * sin (k * r))"

text \<open>The amplitude that \<open>computeCell\<close> stores for column \<open>hx\<close> of a row.\<close>

definition cellValue :: "real \<Rightarrow> real \<Rightarrow> real list \<Rightarrow> nat \<Rightarrow> real \<Rightarrow> real \<Rightarrow> nat \<Rightarrow> real" where
  "cellValue k dxSrc sources res dy dy2 hx =
     (let u = foldl (addWavelet k dy dy2 (real (hx * res))) (0, 0) sources
      in sqrt (fst u * dxSrc * (fst u * dxSrc) + snd u * dxSrc * (snd u * dxSrc)))"

text \<open>The vertical distance \<open>dy\<close> of grid row \<open>hy\<close> from the barrier.\<close>

definition rowDy :: "nat \<Rightarrow> nat \<Rightarrow> real" where
  "rowDy res hy = real canvas_barrierY - real (hy * res)"











section \<open>Properties of the Airy engine\<close>

subsection \<open>The point-spread function\<close>

text \<open>
  Claim C1. For a wavelength and a numerical aperture in the sliders' ranges and any
  centre, \<open>airyDisk\<close> is exactly 1 at the centre, and it takes the same value at the two
  positions an offset \<open>d\<close> to the right and to the left of the centre.
\<close>

theorem airyDisk_normalised_symmetric:
  "validOptics wavelength na \<Longrightarrow>
     airyDisk center wavelength na center = 1
     \<and> airyDisk (center + d) wavelength na center = airyDisk (center - d) wavelength na center"
  by (simp add: airyDisk_def)

theorem airyDisk_normalised_symmetric_witness:
  "validOptics 550 1 \<and> airyDisk (1 / 4) 550 1 (1 / 4) = 1
   \<and> airyDisk (1 / 4 + 1 / 10) 550 1 (1 / 4) = airyDisk (1 / 4 - 1 / 10) 550 1 (1 / 4)"
proof -
  have v: "validOptics 550 1" by (simp add: validOptics_def)
  show ?thesis using v airyDisk_normalised_symmetric [OF v, of "1 / 4" "1 / 10"] by simp
qed

subsection \<open>The two-source profile\<close>

text \<open>The loop from index \<open>i\<close> on appends the samples \<open>i\<close>, ..., \<open>numPoints - 1\<close>.\<close>

lemma generateLoop_eq:
  "i \<le> numPoints \<Longrightarrow> generateLoop wavelength na pos1 pos2 i acc =
     \<lparr>data1 = data1 acc @ map (\<lambda>j. \<lparr>pt_x = samplePos j, pt_y = airyDisk (samplePos j) wavelength na pos1\<rparr>) [i..<numPoints],
      data2 = data2 acc @ map (\<lambda>j. \<lparr>pt_x = samplePos j, pt_y = airyDisk (samplePos j) wavelength na pos2\<rparr>) [i..<numPoints],
      dataSum = dataSum acc @ map (\<lambda>j. \<lparr>pt_x = samplePos j, pt_y = airyDisk (samplePos j) wavelength na pos1 + airyDisk (samplePos j) wavelength na pos2\<rparr>) [i..<numPoints]\<rparr>"
proof (induction wavelength na pos1 pos2 i acc rule: generateLoop.induct)
  case (1 wavelength na pos1 pos2 i acc)
  show ?case
  proof (cases "i < numPoints")
    case True
    then have "Suc i \<le> numPoints" by simp
    note ih = "1.IH"[OF True refl refl refl refl this]
    show ?thesis
      apply (subst generateLoop.simps)
      apply (simp only: True if_True Let_def ih)
      apply (simp add: upt_conv_Cons[OF True] samplePos_def)
      done
  next
    case False
    with 1 have "i = numPoints" by simp
    then show ?thesis by (subst generateLoop.simps) simp
  qed
qed

lemma generateAiryData_eq:
  "generateAiryData wavelength na distance =
     \<lparr>data1 = map (\<lambda>j. \<lparr>pt_x = samplePos j, pt_y = airyDisk (samplePos j) wavelength na (- distance / 2)\<rparr>) [0..<numPoints],
      data2 = map (\<lambda>j. \<lparr>pt_x = samplePos j, pt_y = airyDisk (samplePos j) wavelength na (distance / 2)\<rparr>) [0..<numPoints],
      dataSum = map (\<lambda>j. \<lparr>pt_x = samplePos j, pt_y = airyDisk (samplePos j) wavelength na (- distance / 2) + airyDisk (samplePos j) wavelength na (distance / 2)\<rparr>) [0..<numPoints]\<rparr>"
  by (simp add: generateAiryData_def Let_def generateLoop_eq)

lemma samplePos_eq: "samplePos i = - 2 + real i * (4 / 299)"
  by (simp add: samplePos_def rMin_def rMax_def numPoints_def)

text \<open>
  Claim C2. \<open>generateAiryData\<close> returns three series of exactly 300 samples. The
  positions are \<open>- 2 + i * (4 / 299)\<close>: equally spaced, the first exactly \<open>- 2\<close> and the
  last exactly 2, and the same in the three series. Series 1 is the point-spread
  function centred at \<open>- distance / 2\<close>, series 2 the one centred at \<open>distance / 2\<close>, and
  every value of the sum series is the sum of the two values at that index.
\<close>

theorem generateAiryData_profile:
  "let d = generateAiryData wavelength na distance in
     length (data1 d) = 300 \<and> length (data2 d) = 300 \<and> length (dataSum d) = 300
     \<and> pt_x (data1 d ! 0) = - 2 \<and> pt_x (data1 d ! 299) = 2
     \<and> (\<forall>i<299. pt_x (data1 d ! Suc i) - pt_x (data1 d ! i) = 4 / 299)
     \<and> (\<forall>i<300. pt_x (data1 d ! i) = - 2 + real i * (4 / 299)
          \<and> pt_x (data2 d ! i) = pt_x (data1 d ! i)
          \<and> pt_x (dataSum d ! i) = pt_x (data1 d ! i)
          \<and> pt_y (dataSum d ! i) = pt_y (data1 d ! i) + pt_y (data2 d ! i)
          \<and> pt_y (data1 d ! i) = airyDisk (pt_x (data1 d ! i)) wavelength na (- distance / 2)
          \<and> pt_y (data2 d ! i) = airyDisk (pt_x (data1 d ! i)) wavelength na (distance / 2))"
  unfolding Let_def generateAiryData_eq
  by (simp add: numPoints_def samplePos_eq field_simps)

theorem generateAiryData_profile_witness:
  "length (dataSum (generateAiryData 550 1 (1 / 2))) = 300
   \<and> pt_x (dataSum (generateAiryData 550 1 (1 / 2)) ! 299) = 2
   \<and> pt_x (data1 (generateAiryData 550 1 (1 / 2)) ! 1) - pt_x (data1 (generateAiryData 550 1 (1 / 2)) ! 0) = 4 / 299
   \<and> pt_y (dataSum (generateAiryData 550 1 (1 / 2)) ! 299)
       = pt_y (data1 (generateAiryData 550 1 (1 / 2)) ! 299) + pt_y (data2 (generateAiryData 550 1 (1 / 2)) ! 299)"
proof -
  have a: "(299::nat) < 300" and b: "(0::nat) < 299" by simp_all
  show ?thesis
    using generateAiryData_profile [of 550 1 "1 / 2"] a b
    unfolding Let_def by (metis One_nat_def)
qed

subsection \<open>Pixel size zero or negative\<close>

text \<open>
  Claim C5. When \<open>pixelSize \<le> 0\<close>, \<open>discretizeData\<close> returns the empty sequence, whatever
  the profile, the offset, the noise level and the random draws are; the early return
  comes before every loop and every draw, so nothing can fail.
\<close>

theorem discretizeData_nonpositive_pixelSize:
  "pixelSize \<le> 0 \<Longrightarrow> discretizeData continuousData pixelSize pixelOffset noiseLevel rnd = []"
  by (simp add: discretizeData_def)

theorem discretizeData_nonpositive_pixelSize_witness:
  "(0::real) \<le> 0 \<and> discretizeData [\<lparr>pt_x = 0, pt_y = 1\<rparr>] 0 (1 / 10) (1 / 5) (\<lambda>k. 1 / 2) = []"
proof -
  have h: "(0::real) \<le> 0" by simp
  show ?thesis using h discretizeData_nonpositive_pixelSize [OF h] by simp
qed

subsection \<open>Resolution criteria\<close>

text \<open>
  Claim C6. For a wavelength in 400..700 nm and a numerical aperture in 0.1..1.4,
  Sparrow < Abbe < Rayleigh strictly, where the three values are 0.47, 0.5 and 0.61
  times the wavelength in micrometres over the numerical aperture.
\<close>

theorem criterion_ordering: 
  assumes "validOptics (gp_wavelength this) (gp_na this)"
  shows "calculateSparrow this < calculateAbbe this \<and> calculateAbbe this < calculateRayleigh this
   \<and> calculateRayleigh this = 0.61 * (gp_wavelength this / 1000) / gp_na this
   \<and> calculateAbbe this = 0.5 * (gp_wavelength this / 1000) / gp_na this
   \<and> calculateSparrow this = 0.47 * (gp_wavelength this / 1000) / gp_na this"
proof -
  define q where "q = gp_wavelength this / 1000 / gp_na this"
  have "0 < gp_wavelength this" "0 < gp_na this"
    using assms by (simp_all add: validOptics_def)
  then have q: "0 < q" by (simp add: q_def)
  have r: "calculateRayleigh this = 0.61 * q" and a: "calculateAbbe this = 0.5 * q"
    and s: "calculateSparrow this = 0.47 * q"
    by (simp_all add: calculateRayleigh_def calculateAbbe_def calculateSparrow_def q_def)
  from q have "0.47 * q < 0.5 * q" "0.5 * q < 0.61 * q" by simp_all
  then show ?thesis
    by (simp add: r a s) (simp add: q_def)
qed

theorem criterion_ordering_witness:
  "validOptics (gp_wavelength scenario1) (gp_na scenario1)
   \<and> calculateSparrow scenario1 < calculateAbbe scenario1
   \<and> calculateAbbe scenario1 < calculateRayleigh scenario1
   \<and> calculateRayleigh scenario1 = 0.3355"
proof -
  have v: "validOptics (gp_wavelength scenario1) (gp_na scenario1)"
    by (simp add: validOptics_def scenario1_def)
  show ?thesis using v criterion_ordering [OF v] by (simp add: scenario1_def)
qed

section \<open>Properties of the slit-diffraction engine\<close>

subsection \<open>Slit geometry after an update\<close>

text \<open>
  Claim C7. In double-slit mode, after \<open>updated\<close> the separation is at least the slit
  width. When the separation was below the width, the two are equal afterwards: the
  width is lowered to the separation if the width is among the changed properties, and
  the separation is raised to the width otherwise; the mode stays and nothing else of
  the component changes.
\<close>

theorem updated_keeps_slits_apart:
  "ds_mode this = ''double'' \<Longrightarrow>
     ds_mode (fst (updated changed this)) = ''double''
     \<and> ds_slitWidth (fst (updated changed this)) \<le> ds_slitSeparation (fst (updated changed this))
     \<and> (ds_slitSeparation this < ds_slitWidth this \<longrightarrow>
          ds_slitSeparation (fst (updated changed this)) = ds_slitWidth (fst (updated changed this))
          \<and> (if ''slitWidth'' \<in> changed
              then fst (updated changed this) = this\<lparr>ds_slitWidth := ds_slitSeparation this\<rparr>
              else fst (updated changed this) = this\<lparr>ds_slitSeparation := ds_slitWidth this\<rparr>))"
  by (simp add: updated_def Let_def)


theorem updated_keeps_slits_apart_witness:
  "ds_mode (initialSlit\<lparr>ds_slitSeparation := 1 / 2\<rparr>) = ''double''
   \<and> ds_slitSeparation (initialSlit\<lparr>ds_slitSeparation := 1 / 2\<rparr>)
       < ds_slitWidth (initialSlit\<lparr>ds_slitSeparation := 1 / 2\<rparr>)
   \<and> ds_slitSeparation
         (fst (updated {''slitSeparation''} (initialSlit\<lparr>ds_slitSeparation := 1 / 2\<rparr>))) = 1
   \<and> ds_slitWidth
         (fst (updated {''slitSeparation''} (initialSlit\<lparr>ds_slitSeparation := 1 / 2\<rparr>))) = 1"
proof -
  have m: "ds_mode (initialSlit\<lparr>ds_slitSeparation := 1 / 2\<rparr>) = ''double''"
    by (simp add: initialSlit_def)
  have lt: "ds_slitSeparation (initialSlit\<lparr>ds_slitSeparation := 1 / 2\<rparr>)
      < ds_slitWidth (initialSlit\<lparr>ds_slitSeparation := 1 / 2\<rparr>)"
    by (simp add: initialSlit_def)
  show ?thesis
    using m lt updated_keeps_slits_apart [OF m, of "{''slitSeparation''}"]
    by (simp add: initialSlit_def)
qed

subsection \<open>Source points\<close>

lemma foldl_push: "foldl (\<lambda>acc j. acc @ [f j]) acc js = acc @ map f js"
  by (induction js arbitrary: acc) simp_all

lemma pushSources_eq: "pushSources N sources slit = sources @ apertureSources N slit"
  by (cases slit) (simp add: pushSources_def apertureSources_def Let_def foldl_push)

lemma foldl_pushSources:
  "foldl (pushSources N) sources slitRanges = sources @ concat (map (apertureSources N) slitRanges)"
  by (induction slitRanges arbitrary: sources) (simp_all add: pushSources_eq)

lemma buildSources_eq: "buildSources N slitRanges = concat (map (apertureSources N) slitRanges)"
  by (simp add: buildSources_def foldl_pushSources)

lemma sources_computeField:
  "ds_sources (computeField this) =
     buildSources (nat (max 10 (js_round (ds_slitWidth this * 12)))) (getSlitRanges this)"
  by (simp add: computeField_def Let_def)

lemma length_apertureSources: "length (apertureSources N slit) = N"
  by (cases slit) (simp add: apertureSources_def)

lemma length_concat_apertures:
  "length (concat (map (apertureSources N) slitRanges)) = N * length slitRanges"
  by (induction slitRanges) (simp_all add: length_apertureSources)

lemma apertureSources_spacing:
  assumes "Suc j < N"
  shows "apertureSources N slit ! Suc j - apertureSources N slit ! j
      = (snd slit - fst slit) / real N"
proof -
  obtain l r where s: "slit = (l, r)" by (cases slit)
  define d where "d = (r - l) / real N"
  from assms have j: "j < N" by simp
  have "apertureSources N slit ! Suc j = l + (real (Suc j) + 1 / 2) * d"
    using assms by (simp add: s apertureSources_def d_def del: of_nat_Suc)
  moreover have "apertureSources N slit ! j = l + (real j + 1 / 2) * d"
    using j by (simp add: s apertureSources_def d_def)
  ultimately show ?thesis
    by (simp add: s d_def [symmetric] algebra_simps)
qed

text \<open>
  Claim C8. \<open>computeField\<close> takes \<open>N = max 10 (round (slitWidth * 12))\<close> and stores, for
  each aperture in turn, the \<open>N\<close> evenly spaced points of that aperture: \<open>N\<close> sources in
  single mode, \<open>N\<close> for each of the two apertures in double mode, neighbours one
  \<open>N\<close>-th of the aperture apart. With \<open>slitWidth = 1\<close> in single mode there are 12 sources.
\<close>

theorem source_count:
  "ds_sources (computeField this) =
       concat (map (apertureSources (nat (max 10 (js_round (ds_slitWidth this * 12)))))
                 (getSlitRanges this))
   \<and> length (ds_sources (computeField this)) =
       nat (max 10 (js_round (ds_slitWidth this * 12))) * length (getSlitRanges this)
   \<and> length (getSlitRanges this) = (if ds_mode this = ''single'' then 1 else 2)
   \<and> (\<forall>slit \<in> set (getSlitRanges this). \<forall>j.
         Suc j < nat (max 10 (js_round (ds_slitWidth this * 12))) \<longrightarrow>
           apertureSources (nat (max 10 (js_round (ds_slitWidth this * 12)))) slit ! Suc j
           - apertureSources (nat (max 10 (js_round (ds_slitWidth this * 12)))) slit ! j
           = (snd slit - fst slit) / real (nat (max 10 (js_round (ds_slitWidth this * 12)))))
   \<and> (ds_mode this = ''single'' \<and> ds_slitWidth this = 1 \<longrightarrow>
         length (ds_sources (computeField this)) = 12)"
proof -
  let ?N = "nat (max 10 (js_round (ds_slitWidth this * 12)))"
  have a: "ds_sources (computeField this) = concat (map (apertureSources ?N) (getSlitRanges this))"
    by (simp add: sources_computeField buildSources_eq)
  have b: "length (ds_sources (computeField this)) = ?N * length (getSlitRanges this)"
    by (simp only: a length_concat_apertures)
  have c: "length (getSlitRanges this) = (if ds_mode this = ''single'' then 1 else 2)"
    by (simp add: getSlitRanges_def Let_def)
  have d: "apertureSources ?N slit ! Suc j - apertureSources ?N slit ! j
      = (snd slit - fst slit) / real ?N" if "Suc j < ?N" for slit j
    using that by (rule apertureSources_spacing)
  have e: "length (ds_sources (computeField this)) = 12"
    if "ds_mode this = ''single''" "ds_slitWidth this = 1"
    using that by (simp add: b c js_round_def)
  show ?thesis using a b c d e by blast
qed

lemma js_round_bounds: "0 \<le> v \<Longrightarrow> v \<le> 255 \<Longrightarrow> 0 \<le> js_round v \<and> js_round v \<le> 255"
  unfolding js_round_def by (simp add: floor_le_iff le_floor_iff)

subsection \<open>Gray levels\<close>

lemma wavefrontGray_range:
  assumes "0 \<le> amp" "\<bar>field\<bar> \<le> amp"
  shows "0 \<le> wavefrontGray field amp \<and> wavefrontGray field amp \<le> 255"
proof (cases "amp < 0.005")
  case True
  then show ?thesis by (simp add: wavefrontGray_def)
next
  case False
  then have pos: "0 < amp" by simp
  define nf where "nf = field / amp"
  define crest where "crest = max 0 ((nf - 0.6) / 0.4)"
  define af where "af = min 1 (amp * 3)"
  have "nf \<le> 1" using assms pos by (simp add: nf_def)
  then have c: "0 \<le> crest" "crest \<le> 1" by (simp_all add: crest_def)
  have a: "0 \<le> af" "af \<le> 1" using pos by (simp_all add: af_def)
  have "crest * af \<le> 1 * 1" using c a by (intro mult_mono) simp_all
  then have "0 \<le> crest * af * 255" "crest * af * 255 \<le> 255" using c a by simp_all
  then have "0 \<le> js_round (crest * af * 255) \<and> js_round (crest * af * 255) \<le> 255"
    by (rule js_round_bounds)
  moreover have "wavefrontGray field amp = js_round (crest * af * 255)"
    using False by (simp add: wavefrontGray_def Let_def nf_def crest_def af_def)
  ultimately show ?thesis by simp
qed

lemma wavefrontGray_dark: "amp < 0.005 \<Longrightarrow> wavefrontGray field amp = 0"
  by (simp add: wavefrontGray_def)

lemma clamp_range: "- 1 \<le> clamp v (- 1) 1 \<and> clamp v (- 1) 1 \<le> 1"
  by (simp add: clamp_def)

subsection \<open>The computed field buffers\<close>

lemma accOK_update:
  assumes "accOK L acc"
  shows "accOK L (acc\<lparr>fR := (fR acc)[idx := uR], fI := (fI acc)[idx := uI],
                       fA := (fA acc)[idx := sqrt (uR * uR + uI * uI)],
                       maxAmp := (if sqrt (uR * uR + uI * uI) > maxAmp acc
                                  then sqrt (uR * uR + uI * uI) else maxAmp acc)\<rparr>)"
proof -
  have len: "length (fR acc) = L" "length (fI acc) = L" "length (fA acc) = L"
    and mx: "0 \<le> maxAmp acc"
    and cells: "\<And>m. m < L \<Longrightarrow>
      fA acc ! m = sqrt (fR acc ! m * fR acc ! m + fI acc ! m * fI acc ! m)"
    using assms by (simp_all add: accOK_def)
  have "(fA acc)[idx := sqrt (uR * uR + uI * uI)] ! m =
      sqrt ((fR acc)[idx := uR] ! m * (fR acc)[idx := uR] ! m
          + (fI acc)[idx := uI] ! m * (fI acc)[idx := uI] ! m)" if "m < L" for m
  proof (cases "m = idx")
    case True
    with that show ?thesis by (simp add: len)
  next
    case False
    with that show ?thesis by (simp add: cells)
  qed
  then show ?thesis
    using mx by (simp add: accOK_def len)
qed

lemma accOK_computeCell:
  "accOK L acc \<Longrightarrow> accOK L (computeCell k dxSrc sources res dy dy2 rowOff acc hx)"
  unfolding computeCell_def Let_def by (rule accOK_update)

lemma foldl_preserves: "P a \<Longrightarrow> (\<And>a x. P a \<Longrightarrow> P (f a x)) \<Longrightarrow> P (foldl f a xs)"
  by (induction xs arbitrary: a) simp_all

lemma accOK_computeRow:
  assumes "accOK L acc"
  shows "accOK L (computeRow k dxSrc sources res hW acc hy)"
proof -
  have "accOK L (foldl (computeCell k dxSrc sources res dy dy2 rowOff) acc cells)"
    for dy dy2 rowOff cells
  proof (rule foldl_preserves [where P = "accOK L"])
    show "accOK L acc" by (rule assms)
  next
    fix a x
    assume "accOK L a"
    then show "accOK L (computeCell k dxSrc sources res dy dy2 rowOff a x)"
      by (rule accOK_computeCell)
  qed
  then show ?thesis
    using assms by (simp add: computeRow_def Let_def)
qed

lemma accOK_init: "accOK L \<lparr>fR = replicate L 0, fI = replicate L 0, fA = replicate L 0, maxAmp = 0\<rparr>"
  by (simp add: accOK_def)

lemma computeField_buffers:
  "ds_fieldReal (computeField this) = Some (fR (fieldBuffers this))"
  "ds_fieldImag (computeField this) = Some (fI (fieldBuffers this))"
  "ds_fieldAmp (computeField this) = Some (fA (fieldBuffers this))"
  "ds_normScale (computeField this) = (if maxAmp (fieldBuffers this) > 0 then 1 / maxAmp (fieldBuffers this) else 1)"
  by (simp_all add: computeField_def fieldBuffers_def Let_def)

lemma computeField_dims_raw:
  "ds_res (computeField this) = (if ds_highQuality this then 1 else 2)"
  "ds_hW (computeField this) = nat \<lceil>real canvas_W / real (if ds_highQuality this then 1 else 2 :: nat)\<rceil>"
  "ds_hBY (computeField this) = nat \<lceil>real canvas_barrierY / real (if ds_highQuality this then 1 else 2 :: nat)\<rceil>"
  by (simp_all add: computeField_def Let_def)

lemma computeField_dims:
  "ds_hW (computeField this) = (if ds_highQuality this then 800 else 400)"
  "ds_hBY (computeField this) = (if ds_highQuality this then 300 else 150)"
  by (simp_all add: computeField_dims_raw canvas_W_def canvas_barrierY_def)

lemma accOK_rows:
  "accOK L (foldl (computeRow k dxSrc sources res hW)
      \<lparr>fR = replicate L 0, fI = replicate L 0, fA = replicate L 0, maxAmp = 0\<rparr> rows)"
proof (rule foldl_preserves [where P = "accOK L"])
  show "accOK L \<lparr>fR = replicate L 0, fI = replicate L 0, fA = replicate L 0, maxAmp = 0\<rparr>"
    by (rule accOK_init)
next
  fix a x
  assume "accOK L a"
  then show "accOK L (computeRow k dxSrc sources res hW a x)"
    by (rule accOK_computeRow)
qed

lemma accOK_fieldBuffers:
  "accOK (ds_hBY (computeField this) * ds_hW (computeField this)) (fieldBuffers this)"
  unfolding computeField_dims_raw fieldBuffers_def Let_def
  by (rule accOK_rows)

subsection \<open>Rendering a computed field\<close>

lemma cellIndex_in_range:
  assumes "fieldFrom this0 this" "cx < canvas_W" "cy < canvas_barrierY"
  shows "cellIndex this cx cy < ds_hBY (computeField this0) * ds_hW (computeField this0)"
proof (cases "ds_highQuality this0")
  case True
  have "cy * 800 + cx < 300 * 800" using assms(2,3)
    by (simp add: canvas_W_def canvas_barrierY_def)
  then show ?thesis
    using assms(1) True by (simp add: cellIndex_def fieldFrom_def computeField_dims computeField_dims_raw)
next
  case False
  have "cy div 2 \<le> 149" "cx div 2 \<le> 399" using assms(2,3)
    by (simp_all add: canvas_W_def canvas_barrierY_def)
  then have "cy div 2 * 400 + cx div 2 < 150 * 400" by simp
  then show ?thesis
    using assms(1) False by (simp add: cellIndex_def fieldFrom_def computeField_dims computeField_dims_raw)
qed

lemma phasor_bound: "\<bar>a * cos t + b * sin t\<bar> \<le> sqrt (a * a + b * b)"
proof -
  define c s where "c = cos t" and "s = sin t"
  have one: "c * c + s * s = 1"
    by (simp add: c_def s_def sin_cos_squared_add3)
  have "(a * c + b * s) * (a * c + b * s) + (a * s - b * c) * (a * s - b * c)
      = (a * a + b * b) * (c * c + s * s)"
    by (simp add: algebra_simps)
  also have "\<dots> = a * a + b * b" by (simp add: one)
  finally have eq: "(a * c + b * s) * (a * c + b * s) + (a * s - b * c) * (a * s - b * c)
      = a * a + b * b" .
  have "0 \<le> (a * s - b * c) * (a * s - b * c)" by simp
  with eq have "(a * c + b * s) * (a * c + b * s) \<le> a * a + b * b"
    by linarith
  then have "(a * c + b * s)\<^sup>2 \<le> a * a + b * b"
    by (simp add: power2_eq_square)
  then have "sqrt ((a * c + b * s)\<^sup>2) \<le> sqrt (a * a + b * b)"
    by (rule real_sqrt_le_mono)
  then show ?thesis by (simp add: c_def s_def)
qed

lemma normScale_pos: "0 < ds_normScale (computeField this)"
  by (simp add: computeField_buffers)

lemma cell_bounds:
  assumes "fieldFrom this0 this" "cx < canvas_W" "cy < canvas_barrierY"
  shows "0 \<le> cellAmp this cx cy \<and> \<bar>cellField this cx cy\<bar> \<le> cellAmp this cx cy"
proof -
  let ?L = "ds_hBY (computeField this0) * ds_hW (computeField this0)"
  let ?i = "cellIndex this cx cy"
  let ?b = "fieldBuffers this0"
  have i: "?i < ?L" using assms by (rule cellIndex_in_range)
  have ok: "accOK ?L ?b" by (rule accOK_fieldBuffers)
  have amp: "fA ?b ! ?i = sqrt (fR ?b ! ?i * fR ?b ! ?i + fI ?b ! ?i * fI ?b ! ?i)"
    using ok i by (simp add: accOK_def)
  have n: "0 < ds_normScale this"
    using assms(1) normScale_pos [of this0] by (simp add: fieldFrom_def)
  have bufs: "the (ds_fieldReal this) = fR ?b" "the (ds_fieldImag this) = fI ?b"
    "the (ds_fieldAmp this) = fA ?b"
    using assms(1) by (simp_all add: fieldFrom_def computeField_buffers)
  have a0: "0 \<le> fA ?b ! ?i" by (simp add: amp)
  have "\<bar>cellField this cx cy\<bar> =
      \<bar>fR ?b ! ?i * cos ((2 * pi) / ds_wavelength this * ds_time this)
       + fI ?b ! ?i * sin ((2 * pi) / ds_wavelength this * ds_time this)\<bar> * ds_normScale this"
    using n by (simp add: cellField_def bufs abs_mult)
  also have "\<dots> \<le> fA ?b ! ?i * ds_normScale this"
    using n by (intro mult_right_mono) (simp_all add: amp phasor_bound)
  finally have "\<bar>cellField this cx cy\<bar> \<le> cellAmp this cx cy"
    by (simp add: cellAmp_def bufs)
  moreover have "0 \<le> cellAmp this cx cy"
    using a0 n by (simp add: cellAmp_def bufs)
  ultimately show ?thesis by simp
qed

lemma renderPixel_diffracted:
  assumes "fieldFrom this0 this" "cx < canvas_W" "cy + 2 \<le> canvas_barrierY"
  shows "renderPixel this (the (ds_fieldReal this)) (the (ds_fieldImag this))
           (the (ds_fieldAmp this)) slitMask cx cy =
         (if ds_renderMode this = ''intensity''
          then Gray (128 + 127 * clamp (cellField this cx cy) (- 1) 1)
          else if ds_renderMode this = ''wavefronts''
          then Gray (real_of_int (wavefrontGray (cellField this cx cy) (cellAmp this cx cy)))
          else Gray (50 + 30 * clamp (cellField this cx cy) (- 1) 1))"
proof -
  let ?L = "ds_hBY (computeField this0) * ds_hW (computeField this0)"
  let ?b = "fieldBuffers this0"
  have cy: "cy < canvas_barrierY" using assms(3) by simp
  have i: "cellIndex this cx cy < ?L" using assms(1,2) cy by (rule cellIndex_in_range)
  have ok: "accOK ?L ?b" by (rule accOK_fieldBuffers)
  have bufs: "the (ds_fieldReal this) = fR ?b" "the (ds_fieldImag this) = fI ?b"
    "the (ds_fieldAmp this) = fA ?b"
    using assms(1) by (simp_all add: fieldFrom_def computeField_buffers)
  have len: "length (fR ?b) = ?L" "length (fI ?b) = ?L" "length (fA ?b) = ?L"
    using ok by (simp_all add: accOK_def)
  have rd: "f32_read (fR ?b) ((cy div ds_res this) * ds_hW this + cx div ds_res this)
              = Some (fR ?b ! cellIndex this cx cy)"
       "f32_read (fI ?b) ((cy div ds_res this) * ds_hW this + cx div ds_res this)
              = Some (fI ?b ! cellIndex this cx cy)"
       "f32_read (fA ?b) ((cy div ds_res this) * ds_hW this + cx div ds_res this)
              = Some (fA ?b ! cellIndex this cx cy)"
    using i by (simp_all add: f32_read_def len cellIndex_def)
  have dy: "\<not> canvas_barrierY - cy < 2" using assms(3) by simp
  show ?thesis
    unfolding renderPixel_def Let_def
    by (simp only: cy if_True dy if_False bufs rd option.case prod.case)
       (simp add: cellField_def cellAmp_def bufs cellIndex_def)
qed

lemma renderFrame_eq:
  assumes "fieldFrom this0 this" "ds_ctx this"
  shows "renderFrame this =
     Frame (map (\<lambda>cy. map (\<lambda>cx.
        renderPixel this (the (ds_fieldReal this)) (the (ds_fieldImag this))
          (the (ds_fieldAmp this)) (buildSlitMask canvas_W (getSlitRanges this)) cx cy)
        [0..<canvas_W]) [0..<canvas_H])"
  using assms by (simp add: renderFrame_def fieldFrom_def computeField_buffers Let_def)

lemma cos_wavefront_ok: "validPixel (Gray (real_of_int (wavefrontGray (cos v) 1)))"
proof -
  have "0 \<le> wavefrontGray (cos v) 1 \<and> wavefrontGray (cos v) 1 \<le> 255"
    by (rule wavefrontGray_range) (simp_all add: abs_cos_le_one)
  then show ?thesis by (simp add: validPixel_def)
qed

lemma validPixel_barrier: "validPixel BarrierFill"
  by (simp add: validPixel_def)

lemma validPixel_int: "0 \<le> g \<Longrightarrow> g \<le> 255 \<Longrightarrow> validPixel (Gray (real_of_int g))"
  by (simp add: validPixel_def)

lemma renderPixel_wavefronts_ok:
  assumes "fieldFrom this0 this" "ds_renderMode this = ''wavefronts''" "cx < canvas_W"
  shows "validPixel (renderPixel this (the (ds_fieldReal this)) (the (ds_fieldImag this))
           (the (ds_fieldAmp this)) slitMask cx cy)"
proof (cases "cy + 2 \<le> canvas_barrierY")
  case True
  then have cy: "cy < canvas_barrierY" by simp
  have "0 \<le> cellAmp this cx cy \<and> \<bar>cellField this cx cy\<bar> \<le> cellAmp this cx cy"
    using assms(1,3) cy by (rule cell_bounds)
  then have "0 \<le> wavefrontGray (cellField this cx cy) (cellAmp this cx cy)
      \<and> wavefrontGray (cellField this cx cy) (cellAmp this cx cy) \<le> 255"
    by (intro wavefrontGray_range) simp_all
  then show ?thesis
    using renderPixel_diffracted [OF assms(1,3) True] assms(2) by (simp add: validPixel_int)
next
  case False
  then have dy: "canvas_barrierY - cy < 2" by simp
  show ?thesis
  proof (cases "cy < canvas_barrierY")
    case True
    then show ?thesis by (simp add: renderPixel_def Let_def dy validPixel_def)
  next
    case above: False
    show ?thesis
    proof (cases "cy < canvas_barrierY + canvas_barrierH")
      case True
      then show ?thesis
        using above assms(2)
        by (simp add: renderPixel_def Let_def cos_wavefront_ok validPixel_barrier)
    next
      case False
      then show ?thesis
        using above assms(2)
        by (simp add: renderPixel_def Let_def cos_wavefront_ok)
    qed
  qed
qed

text \<open>
  Claim C10. For \<open>amp \<ge> 0\<close> and \<open>\<bar>field\<bar> \<le> amp\<close>, \<open>wavefrontGray\<close> is an integer from 0 to
  255, and it is 0 whenever \<open>amp < 0.005\<close>. The values the renderer passes for a cell of
  a computed field satisfy \<open>amp \<ge> 0\<close> and \<open>\<bar>field\<bar> \<le> amp\<close>, and in the wavefronts mode
  every pixel of the frame is the barrier colour or an integer gray level from 0 to
  255; no read leaves the buffers.
\<close>

theorem wavefronts_gray_in_range:
  "(0 \<le> amp \<and> \<bar>field\<bar> \<le> amp \<longrightarrow>
      0 \<le> wavefrontGray field amp \<and> wavefrontGray field amp \<le> 255)
   \<and> (amp < 0.005 \<longrightarrow> wavefrontGray field amp = 0)
   \<and> (fieldFrom this0 this \<and> cx < canvas_W \<and> cy + 2 \<le> canvas_barrierY \<longrightarrow>
        0 \<le> cellAmp this cx cy \<and> \<bar>cellField this cx cy\<bar> \<le> cellAmp this cx cy)
   \<and> (fieldFrom this0 this \<and> ds_ctx this \<and> ds_renderMode this = ''wavefronts'' \<longrightarrow>
        (\<exists>img. renderFrame this = Frame img \<and> length img = canvas_H
           \<and> (\<forall>row \<in> set img. length row = canvas_W \<and> (\<forall>p \<in> set row. validPixel p))))"
proof (intro conjI impI)
  assume "0 \<le> amp \<and> \<bar>field\<bar> \<le> amp"
  then have "0 \<le> wavefrontGray field amp \<and> wavefrontGray field amp \<le> 255"
    by (intro wavefrontGray_range) simp_all
  then show "0 \<le> wavefrontGray field amp" "wavefrontGray field amp \<le> 255" by simp_all
next
  assume "amp < 0.005"
  then show "wavefrontGray field amp = 0" by (rule wavefrontGray_dark)
next
  assume a: "fieldFrom this0 this \<and> cx < canvas_W \<and> cy + 2 \<le> canvas_barrierY"
  then have "fieldFrom this0 this" "cx < canvas_W" "cy < canvas_barrierY" by simp_all
  then have "0 \<le> cellAmp this cx cy \<and> \<bar>cellField this cx cy\<bar> \<le> cellAmp this cx cy"
    by (rule cell_bounds)
  then show "0 \<le> cellAmp this cx cy" "\<bar>cellField this cx cy\<bar> \<le> cellAmp this cx cy"
    by simp_all
next
  assume a: "fieldFrom this0 this \<and> ds_ctx this \<and> ds_renderMode this = ''wavefronts''"
  then have f: "fieldFrom this0 this" and c: "ds_ctx this"
    and m: "ds_renderMode this = ''wavefronts''" by simp_all
  show "\<exists>img. renderFrame this = Frame img \<and> length img = canvas_H
           \<and> (\<forall>row \<in> set img. length row = canvas_W \<and> (\<forall>p \<in> set row. validPixel p))"
    unfolding renderFrame_eq [OF f c]
    by (auto simp: renderPixel_wavefronts_ok [OF f m])
qed

theorem source_count_witness:
  "ds_mode (initialSlit\<lparr>ds_mode := ''single''\<rparr>) = ''single''
   \<and> ds_slitWidth (initialSlit\<lparr>ds_mode := ''single''\<rparr>) = 1
   \<and> length (ds_sources (computeField (initialSlit\<lparr>ds_mode := ''single''\<rparr>))) = 12
   \<and> (390, 410) \<in> set (getSlitRanges (initialSlit\<lparr>ds_mode := ''single''\<rparr>))
   \<and> apertureSources 12 (390, 410) ! Suc 0 - apertureSources 12 (390, 410) ! 0 = 20 / 12"
proof -
  let ?s = "initialSlit\<lparr>ds_mode := ''single''\<rparr>"
  have m: "ds_mode ?s = ''single''" and w: "ds_slitWidth ?s = 1"
    by (simp_all add: initialSlit_def)
  have n: "nat (max 10 (js_round (ds_slitWidth ?s * 12))) = 12"
    by (simp add: w js_round_def)
  have r: "(390, 410) \<in> set (getSlitRanges ?s)"
    by (simp add: getSlitRanges_def Let_def initialSlit_def canvas_W_def)
  have j: "Suc 0 < (12::nat)" by simp
  have len: "length (ds_sources (computeField ?s)) = 12"
    using source_count [of ?s] m w by blast
  have "\<forall>slit \<in> set (getSlitRanges ?s). \<forall>j. Suc j < 12 \<longrightarrow>
      apertureSources 12 slit ! Suc j - apertureSources 12 slit ! j
        = (snd slit - fst slit) / real (12::nat)"
    using source_count [of ?s] unfolding n by blast
  with r j have "apertureSources 12 (390, 410) ! Suc 0 - apertureSources 12 (390, 410) ! 0
      = (snd (390::real, 410::real) - fst (390::real, 410::real)) / real (12::nat)"
    by blast
  then have sp: "apertureSources 12 (390, 410) ! Suc 0 - apertureSources 12 (390, 410) ! 0
      = 20 / 12" by simp
  show ?thesis using m w len r sp by blast
qed

theorem wavefronts_gray_in_range_witness:
  "(0::real) \<le> 1 \<and> \<bar>1::real\<bar> \<le> 1 \<and> wavefrontGray 1 1 \<le> 255
   \<and> (1 / 1000 :: real) < 0.005 \<and> wavefrontGray 0 (1 / 1000) = 0
   \<and> fieldFrom initialSlit (readySlit\<lparr>ds_renderMode := ''wavefronts''\<rparr>)
   \<and> ds_ctx (readySlit\<lparr>ds_renderMode := ''wavefronts''\<rparr>)
   \<and> ds_renderMode (readySlit\<lparr>ds_renderMode := ''wavefronts''\<rparr>) = ''wavefronts''
   \<and> (\<exists>img. renderFrame (readySlit\<lparr>ds_renderMode := ''wavefronts''\<rparr>) = Frame img
         \<and> length img = canvas_H
         \<and> (\<forall>row \<in> set img. length row = canvas_W \<and> (\<forall>p \<in> set row. validPixel p)))"
proof -
  let ?s = "readySlit\<lparr>ds_renderMode := ''wavefronts''\<rparr>"
  have a: "fieldFrom initialSlit ?s" by (simp add: fieldFrom_def readySlit_def)
  have b: "ds_ctx ?s" by (simp add: readySlit_def)
  have c: "ds_renderMode ?s = ''wavefronts''" by simp
  have d: "(0::real) \<le> 1 \<and> \<bar>1::real\<bar> \<le> 1" by simp
  have e: "(1 / 1000 :: real) < 0.005" by simp
  have f: "wavefrontGray 1 1 \<le> 255"
    using wavefronts_gray_in_range [of 1 1 initialSlit ?s 0 0] d by blast
  have g: "wavefrontGray 0 (1 / 1000) = 0"
    using wavefronts_gray_in_range [of "1 / 1000" 0 initialSlit ?s 0 0] e by blast
  have h: "\<exists>img. renderFrame ?s = Frame img \<and> length img = canvas_H
         \<and> (\<forall>row \<in> set img. length row = canvas_W \<and> (\<forall>p \<in> set row. validPixel p))"
    using wavefronts_gray_in_range [of 1 1 initialSlit ?s 0 0] a b c by blast
  show ?thesis using a b c d e f g h by blast
qed

subsection \<open>Symmetry of the computed field\<close>

lemma addWavelet_eq:
  "addWavelet k dy dy2 cx u src =
     (fst u + waveletRe k dy dy2 ((cx - src) * (cx - src)),
      snd u + waveletIm k dy dy2 ((cx - src) * (cx - src)))"
  by (cases u) (simp add: addWavelet_def waveletRe_def waveletIm_def Let_def)

lemma foldl_addWavelet:
  "foldl (addWavelet k dy dy2 cx) u srcs =
     (fst u + (\<Sum>s\<leftarrow>srcs. waveletRe k dy dy2 ((cx - s) * (cx - s))),
      snd u + (\<Sum>s\<leftarrow>srcs. waveletIm k dy dy2 ((cx - s) * (cx - s))))"
proof (induction srcs arbitrary: u)
  case Nil
  then show ?case by simp
next
  case (Cons s srcs)
  show ?case
    by (simp only: foldl_Cons Cons.IH) (simp add: addWavelet_eq add.assoc)
qed

lemma aperture_mirror:
  assumes "j < N" "left + right = 2 * c"
  shows "left + (real (N - Suc j) + 1 / 2) * ((right - left) / real N)
       = 2 * c - (left + (real j + 1 / 2) * ((right - left) / real N))"
proof -
  from assms(1) have n: "real N \<noteq> 0" by auto
  define d where "d = (right - left) / real N"
  have w: "real N * d = right - left" using n by (simp add: d_def)
  have "real (N - Suc j) = real N - real j - 1" using assms(1) by (simp add: of_nat_diff)
  then have "left + (real (N - Suc j) + 1 / 2) * d = left + real N * d - (real j + 1 / 2) * d"
    by (simp add: algebra_simps)
  also have "\<dots> = 2 * c - (left + (real j + 1 / 2) * d)"
    using assms(2) by (simp add: w)
  finally show ?thesis by (simp add: d_def)
qed

lemma sum_mirror:
  fixes T :: "real \<Rightarrow> real"
  assumes "left + right = 2 * c"
  shows "(\<Sum>s\<leftarrow>apertureSources N (left, right). T ((2 * c - cx - s) * (2 * c - cx - s)))
       = (\<Sum>s\<leftarrow>apertureSources N (left, right). T ((cx - s) * (cx - s)))"
proof -
  let ?pos = "\<lambda>j. left + (real j + 1 / 2) * ((right - left) / real N)"
  have "(\<Sum>s\<leftarrow>apertureSources N (left, right). T ((2 * c - cx - s) * (2 * c - cx - s)))
      = (\<Sum>j<N. T ((2 * c - cx - ?pos j) * (2 * c - cx - ?pos j)))"
    by (simp add: apertureSources_def o_def interv_sum_list_conv_sum_set_nat atLeast0LessThan)
  also have "\<dots> = (\<Sum>j<N. T ((cx - ?pos (N - Suc j)) * (cx - ?pos (N - Suc j))))"
  proof (rule sum.cong)
    fix j assume "j \<in> {..<N}"
    then have j: "j < N" by simp
    have "?pos (N - Suc j) = 2 * c - ?pos j"
      using j assms by (rule aperture_mirror)
    then have "(cx - ?pos (N - Suc j)) = - (2 * c - cx - ?pos j)" by simp
    then have "(cx - ?pos (N - Suc j)) * (cx - ?pos (N - Suc j))
        = (2 * c - cx - ?pos j) * (2 * c - cx - ?pos j)"
      by (simp only: minus_mult_minus)
    then show "T ((2 * c - cx - ?pos j) * (2 * c - cx - ?pos j))
        = T ((cx - ?pos (N - Suc j)) * (cx - ?pos (N - Suc j)))" by simp
  qed simp
  also have "\<dots> = (\<Sum>j<N. T ((cx - ?pos j) * (cx - ?pos j)))"
    by (rule sum.nat_diff_reindex)
  also have "\<dots> = (\<Sum>s\<leftarrow>apertureSources N (left, right). T ((cx - s) * (cx - s)))"
    by (simp add: apertureSources_def o_def interv_sum_list_conv_sum_set_nat atLeast0LessThan)
  finally show ?thesis .
qed

lemma cellValue_mirror:
  assumes "left + right = real canvas_W" "hx1 * res + hx2 * res = canvas_W"
  shows "cellValue k dxSrc (apertureSources N (left, right)) res dy dy2 hx1
       = cellValue k dxSrc (apertureSources N (left, right)) res dy dy2 hx2"
proof -
  have c: "left + right = 2 * (real canvas_W / 2)" using assms(1) by simp
  have "real (hx1 * res) + real (hx2 * res) = real canvas_W"
    using assms(2) by (metis of_nat_add)
  then have x: "real (hx1 * res) = 2 * (real canvas_W / 2) - real (hx2 * res)" by simp
  show ?thesis
    unfolding cellValue_def foldl_addWavelet x
    by (simp only: sum_mirror [OF c])
qed

lemma fA_computeCell:
  "fA (computeCell k dxSrc sources res dy dy2 rowOff acc hx)
     = (fA acc)[rowOff + hx := cellValue k dxSrc sources res dy dy2 hx]"
  by (simp add: computeCell_def cellValue_def Let_def)

lemma fA_cells:
  "length (fA (foldl (computeCell k dxSrc sources res dy dy2 rowOff) acc [0..<n])) = length (fA acc)
   \<and> (\<forall>m < length (fA acc).
        fA (foldl (computeCell k dxSrc sources res dy dy2 rowOff) acc [0..<n]) ! m
          = (if rowOff \<le> m \<and> m < rowOff + n
             then cellValue k dxSrc sources res dy dy2 (m - rowOff)
             else fA acc ! m))"
proof (induction n)
  case 0
  show ?case by simp
next
  case (Suc n)
  let ?acc' = "foldl (computeCell k dxSrc sources res dy dy2 rowOff) acc [0..<n]"
  have len: "length (fA ?acc') = length (fA acc)" using Suc.IH by simp
  have old: "\<And>m. m < length (fA acc) \<Longrightarrow> fA ?acc' ! m
          = (if rowOff \<le> m \<and> m < rowOff + n
             then cellValue k dxSrc sources res dy dy2 (m - rowOff)
             else fA acc ! m)" using Suc.IH by simp
  have step: "foldl (computeCell k dxSrc sources res dy dy2 rowOff) acc [0..<Suc n]
      = computeCell k dxSrc sources res dy dy2 rowOff ?acc' n" by simp
  have "fA (computeCell k dxSrc sources res dy dy2 rowOff ?acc' n) ! m
      = (if rowOff \<le> m \<and> m < rowOff + Suc n
         then cellValue k dxSrc sources res dy dy2 (m - rowOff)
         else fA acc ! m)" if m: "m < length (fA acc)" for m
  proof (cases "m = rowOff + n")
    case True
    then show ?thesis using m by (simp add: fA_computeCell len)
  next
    case False
    then have "fA (computeCell k dxSrc sources res dy dy2 rowOff ?acc' n) ! m = fA ?acc' ! m"
      by (simp add: fA_computeCell)
    also have "\<dots> = (if rowOff \<le> m \<and> m < rowOff + n
             then cellValue k dxSrc sources res dy dy2 (m - rowOff)
             else fA acc ! m)" using m by (rule old)
    also have "\<dots> = (if rowOff \<le> m \<and> m < rowOff + Suc n
         then cellValue k dxSrc sources res dy dy2 (m - rowOff)
         else fA acc ! m)" using False by auto
    finally show ?thesis .
  qed
  then show ?case
    unfolding step by (simp add: fA_computeCell len)
qed

lemma fA_computeRow:
  assumes "0 < hW"
  shows "length (fA (computeRow k dxSrc sources res hW acc hy)) = length (fA acc)
   \<and> (\<forall>m < length (fA acc).
        fA (computeRow k dxSrc sources res hW acc hy) ! m
          = (if m div hW = hy \<and> \<not> rowDy res hy < 2
             then cellValue k dxSrc sources res (rowDy res hy) (rowDy res hy * rowDy res hy)
                    (m mod hW)
             else fA acc ! m))"
proof (cases "rowDy res hy < 2")
  case True
  then show ?thesis by (simp add: computeRow_def Let_def rowDy_def)
next
  case False
  have row: "computeRow k dxSrc sources res hW acc hy
      = foldl (computeCell k dxSrc sources res (rowDy res hy) (rowDy res hy * rowDy res hy)
          (hy * hW)) acc [0..<hW]"
    using False by (simp add: computeRow_def Let_def rowDy_def)
  have idx: "(hy * hW \<le> m \<and> m < hy * hW + hW) = (m div hW = hy)" for m
  proof
    assume a: "hy * hW \<le> m \<and> m < hy * hW + hW"
    then have "hy \<le> m div hW" using assms by (simp add: less_eq_div_iff_mult_less_eq)
    moreover from a have "m < Suc hy * hW" by simp
    then have "m div hW < Suc hy" using assms by (simp add: div_less_iff_less_mult)
    ultimately show "m div hW = hy" by simp
  next
    assume "m div hW = hy"
    then have "hy * hW + m mod hW = m" by (metis div_mult_mod_eq)
    moreover have "m mod hW < hW" using assms by simp
    ultimately show "hy * hW \<le> m \<and> m < hy * hW + hW" by linarith
  qed
  have off: "m - hy * hW = m mod hW" if "m div hW = hy" for m
    using that by (metis add_diff_cancel_left' div_mult_mod_eq)
  show ?thesis
    unfolding row using fA_cells [of k dxSrc sources res "rowDy res hy"
        "rowDy res hy * rowDy res hy" "hy * hW" acc hW] False
    by (auto simp: idx off)
qed

lemma fA_rows:
  assumes "0 < hW"
  shows "length (fA (foldl (computeRow k dxSrc sources res hW) acc [0..<n])) = length (fA acc)
   \<and> (\<forall>m < length (fA acc).
        fA (foldl (computeRow k dxSrc sources res hW) acc [0..<n]) ! m
          = (if m div hW < n \<and> \<not> rowDy res (m div hW) < 2
             then cellValue k dxSrc sources res (rowDy res (m div hW))
                    (rowDy res (m div hW) * rowDy res (m div hW)) (m mod hW)
             else fA acc ! m))"
proof (induction n)
  case 0
  show ?case by simp
next
  case (Suc n)
  let ?acc' = "foldl (computeRow k dxSrc sources res hW) acc [0..<n]"
  have len: "length (fA ?acc') = length (fA acc)" using Suc.IH by simp
  have old: "\<And>m. m < length (fA acc) \<Longrightarrow> fA ?acc' ! m
          = (if m div hW < n \<and> \<not> rowDy res (m div hW) < 2
             then cellValue k dxSrc sources res (rowDy res (m div hW))
                    (rowDy res (m div hW) * rowDy res (m div hW)) (m mod hW)
             else fA acc ! m)" using Suc.IH by simp
  have step: "foldl (computeRow k dxSrc sources res hW) acc [0..<Suc n]
      = computeRow k dxSrc sources res hW ?acc' n" by simp
  note row = fA_computeRow [OF assms, of k dxSrc sources res ?acc' n]
  have "fA (computeRow k dxSrc sources res hW ?acc' n) ! m
      = (if m div hW < Suc n \<and> \<not> rowDy res (m div hW) < 2
             then cellValue k dxSrc sources res (rowDy res (m div hW))
                    (rowDy res (m div hW) * rowDy res (m div hW)) (m mod hW)
             else fA acc ! m)" if m: "m < length (fA acc)" for m
  proof (cases "m div hW = n")
    case True
    then show ?thesis using row m len old [OF m] by simp
  next
    case False
    then have "(m div hW < Suc n) = (m div hW < n)" by auto
    then show ?thesis using row m len old [OF m] False by simp
  qed
  then show ?case
    unfolding step using row len by simp
qed

lemma cell_index_div_mod:
  assumes "hx < (hW::nat)"
  shows "(hy * hW + hx) div hW = hy" "(hy * hW + hx) mod hW = hx"
  using assms by simp_all

lemma fieldAmp_cell:
  assumes "hy < ds_hBY (computeField this)" "hx < ds_hW (computeField this)"
  shows "fA (fieldBuffers this) ! (hy * ds_hW (computeField this) + hx) =
     (if rowDy (ds_res (computeField this)) hy < 2 then 0
      else cellValue ((2 * pi) / ds_wavelength this)
             ((ds_slitWidth this * ds_wavelength this)
                / real (nat (max 10 (js_round (ds_slitWidth this * 12)))))
             (ds_sources (computeField this)) (ds_res (computeField this))
             (rowDy (ds_res (computeField this)) hy)
             (rowDy (ds_res (computeField this)) hy * rowDy (ds_res (computeField this)) hy) hx)"
proof -
  let ?hW = "ds_hW (computeField this)" and ?hBY = "ds_hBY (computeField this)"
  let ?res = "ds_res (computeField this)"
  let ?k = "(2 * pi) / ds_wavelength this"
  let ?N = "nat (max 10 (js_round (ds_slitWidth this * 12)))"
  let ?d = "(ds_slitWidth this * ds_wavelength this) / real ?N"
  let ?src = "ds_sources (computeField this)"
  let ?init = "\<lparr>fR = replicate (?hBY * ?hW) 0, fI = replicate (?hBY * ?hW) 0,
                 fA = replicate (?hBY * ?hW) (0::real), maxAmp = 0\<rparr>"
  let ?m = "hy * ?hW + hx"
  have fb: "fieldBuffers this = foldl (computeRow ?k ?d ?src ?res ?hW) ?init [0..<?hBY]"
    by (simp add: fieldBuffers_def Let_def computeField_dims_raw sources_computeField)
  have pos: "0 < ?hW" using assms(2) by simp
  have "?m < hy * ?hW + ?hW" using assms(2) by simp
  also have "\<dots> = Suc hy * ?hW" by simp
  also have "\<dots> \<le> ?hBY * ?hW" using assms(1) by (intro mult_le_mono1) simp
  finally have m: "?m < length (fA ?init)" by simp
  have dm: "?m div ?hW = hy" "?m mod ?hW = hx"
    using assms(2) by (rule cell_index_div_mod)+
  have "fA (foldl (computeRow ?k ?d ?src ?res ?hW) ?init [0..<?hBY]) ! ?m
      = (if ?m div ?hW < ?hBY \<and> \<not> rowDy ?res (?m div ?hW) < 2
         then cellValue ?k ?d ?src ?res (rowDy ?res (?m div ?hW))
                (rowDy ?res (?m div ?hW) * rowDy ?res (?m div ?hW)) (?m mod ?hW)
         else fA ?init ! ?m)"
    using fA_rows [OF pos, of ?k ?d ?src ?res ?init ?hBY] m by blast
  then show ?thesis
    using assms(1) m unfolding fb dm by simp
qed

lemma single_sources:
  assumes "ds_mode this = ''single''"
  shows "ds_sources (computeField this) =
     apertureSources (nat (max 10 (js_round (ds_slitWidth this * 12))))
       (real canvas_W / 2 - ds_slitWidth this * ds_wavelength this / 2,
        real canvas_W / 2 + ds_slitWidth this * ds_wavelength this / 2)"
  using assms by (simp add: sources_computeField buildSources_eq getSlitRanges_def Let_def)

text \<open>
  Claim C9. In single mode the one aperture is centred on the vertical line through the
  middle of the canvas, and in every grid row the amplitude buffer holds equal values in
  two cells whose canvas positions lie at equal distances to the left and to the right
  of that line (exactly, in real arithmetic).
\<close>

theorem field_magnitude_symmetric:
  assumes "ds_mode this = ''single''"
    and "hy < ds_hBY (computeField this)"
    and "hx1 < ds_hW (computeField this)" "hx2 < ds_hW (computeField this)"
    and "hx1 * ds_res (computeField this) + hx2 * ds_res (computeField this) = canvas_W"
  shows "getSlitRanges this =
           [(real canvas_W / 2 - ds_slitWidth this * ds_wavelength this / 2,
             real canvas_W / 2 + ds_slitWidth this * ds_wavelength this / 2)]
     \<and> (\<exists>fieldAmp. ds_fieldAmp (computeField this) = Some fieldAmp
          \<and> fieldAmp ! (hy * ds_hW (computeField this) + hx1)
            = fieldAmp ! (hy * ds_hW (computeField this) + hx2))"
proof -
  let ?l = "real canvas_W / 2 - ds_slitWidth this * ds_wavelength this / 2"
  let ?r = "real canvas_W / 2 + ds_slitWidth this * ds_wavelength this / 2"
  have rng: "getSlitRanges this = [(?l, ?r)]"
    using assms(1) by (simp add: getSlitRanges_def Let_def)
  have c: "?l + ?r = real canvas_W" by simp
  have "fA (fieldBuffers this) ! (hy * ds_hW (computeField this) + hx1)
      = fA (fieldBuffers this) ! (hy * ds_hW (computeField this) + hx2)"
    unfolding fieldAmp_cell [OF assms(2,3)] fieldAmp_cell [OF assms(2,4)]
      single_sources [OF assms(1)]
    by (simp only: cellValue_mirror [OF c assms(5)])
  then show ?thesis
    using rng by (simp add: computeField_buffers)
qed

theorem field_magnitude_symmetric_witness:
  "ds_mode (initialSlit\<lparr>ds_mode := ''single''\<rparr>) = ''single''
   \<and> (10::nat) < ds_hBY (computeField (initialSlit\<lparr>ds_mode := ''single''\<rparr>))
   \<and> (300::nat) < ds_hW (computeField (initialSlit\<lparr>ds_mode := ''single''\<rparr>))
   \<and> (500::nat) < ds_hW (computeField (initialSlit\<lparr>ds_mode := ''single''\<rparr>))
   \<and> 300 * ds_res (computeField (initialSlit\<lparr>ds_mode := ''single''\<rparr>))
       + 500 * ds_res (computeField (initialSlit\<lparr>ds_mode := ''single''\<rparr>)) = canvas_W
   \<and> getSlitRanges (initialSlit\<lparr>ds_mode := ''single''\<rparr>) = [(390, 410)]
   \<and> (\<exists>fieldAmp. ds_fieldAmp (computeField (initialSlit\<lparr>ds_mode := ''single''\<rparr>)) = Some fieldAmp
        \<and> fieldAmp ! (10 * 800 + 300) = fieldAmp ! (10 * 800 + 500))"
proof -
  let ?s = "initialSlit\<lparr>ds_mode := ''single''\<rparr>"
  have hq: "ds_highQuality ?s" by (simp add: initialSlit_def)
  have m: "ds_mode ?s = ''single''" by (simp add: initialSlit_def)
  have res: "ds_res (computeField ?s) = 1" using hq by (simp add: computeField_dims_raw)
  have hW: "ds_hW (computeField ?s) = 800" and hBY: "ds_hBY (computeField ?s) = 300"
    using hq by (simp_all add: computeField_dims)
  have a: "(10::nat) < ds_hBY (computeField ?s)" by (simp add: hBY)
  have b: "(300::nat) < ds_hW (computeField ?s)" by (simp add: hW)
  have c: "(500::nat) < ds_hW (computeField ?s)" by (simp add: hW)
  have d: "300 * ds_res (computeField ?s) + 500 * ds_res (computeField ?s) = canvas_W"
    by (simp add: res canvas_W_def)
  have w: "ds_slitWidth ?s * ds_wavelength ?s = 20" "real canvas_W = 800"
    by (simp_all add: initialSlit_def canvas_W_def)
  show ?thesis
    using m a b c d field_magnitude_symmetric [OF m a b c d]
    unfolding hW w by simp
qed

section \<open>Properties of the pixel discretizer\<close>





















section \<open>Gray levels of the intensity mode\<close>

subsection \<open>The running maximum\<close>

lemma maxAmp_computeCell:
  "maxAmp (computeCell k dxSrc sources res dy dy2 rowOff acc hx)
     = (if cellValue k dxSrc sources res dy dy2 hx > maxAmp acc
        then cellValue k dxSrc sources res dy dy2 hx else maxAmp acc)"
  by (simp add: computeCell_def cellValue_def Let_def)

lemma maxAmp_cells:
  "maxAmp acc \<le> maxAmp (foldl (computeCell k dxSrc sources res dy dy2 rowOff) acc [0..<n])
   \<and> (\<forall>hx<n. cellValue k dxSrc sources res dy dy2 hx
         \<le> maxAmp (foldl (computeCell k dxSrc sources res dy dy2 rowOff) acc [0..<n]))
   \<and> (maxAmp (foldl (computeCell k dxSrc sources res dy dy2 rowOff) acc [0..<n]) = maxAmp acc
      \<or> (\<exists>hx<n. maxAmp (foldl (computeCell k dxSrc sources res dy dy2 rowOff) acc [0..<n])
            = cellValue k dxSrc sources res dy dy2 hx))"
proof (induction n)
  case 0
  show ?case by simp
next
  case (Suc n)
  let ?acc' = "foldl (computeCell k dxSrc sources res dy dy2 rowOff) acc [0..<n]"
  let ?c = "cellValue k dxSrc sources res dy dy2"
  let ?M = "if ?c n > maxAmp ?acc' then ?c n else maxAmp ?acc'"
  have step: "maxAmp (foldl (computeCell k dxSrc sources res dy dy2 rowOff) acc [0..<Suc n]) = ?M"
    by (simp add: maxAmp_computeCell)
  have ih: "maxAmp acc \<le> maxAmp ?acc'" "\<forall>hx<n. ?c hx \<le> maxAmp ?acc'"
    "maxAmp ?acc' = maxAmp acc \<or> (\<exists>hx<n. maxAmp ?acc' = ?c hx)"
    using Suc.IH by blast+
  have a: "maxAmp acc \<le> ?M" using ih(1) by simp
  have b: "\<forall>hx<Suc n. ?c hx \<le> ?M"
  proof (intro allI impI)
    fix hx assume "hx < Suc n"
    then consider "hx < n" | "hx = n" by linarith
    then show "?c hx \<le> ?M"
    proof cases
      case 1
      with ih(2) have "?c hx \<le> maxAmp ?acc'" by simp
      then show ?thesis by simp
    next
      case 2
      then show ?thesis by simp
    qed
  qed
  have c: "?M = maxAmp acc \<or> (\<exists>hx<Suc n. ?M = ?c hx)"
  proof (cases "?c n > maxAmp ?acc'")
    case True
    then have "?M = ?c n" by simp
    then show ?thesis by blast
  next
    case False
    then have m: "?M = maxAmp ?acc'" by simp
    from ih(3) show ?thesis
    proof
      assume "maxAmp ?acc' = maxAmp acc"
      with m show ?thesis by simp
    next
      assume "\<exists>hx<n. maxAmp ?acc' = ?c hx"
      then obtain hx where "hx < n" "maxAmp ?acc' = ?c hx" by blast
      with m have "hx < Suc n" "?M = ?c hx" by simp_all
      then show ?thesis by blast
    qed
  qed
  show ?case unfolding step using a b c by blast
qed

lemma computeRow_cases:
  "computeRow k dxSrc sources res hW acc hy =
     (if rowDy res hy < 2 then acc
      else foldl (computeCell k dxSrc sources res (rowDy res hy) (rowDy res hy * rowDy res hy)
             (hy * hW)) acc [0..<hW])"
  by (simp add: computeRow_def Let_def rowDy_def)

lemma maxAmp_rows:
  "maxAmp acc \<le> maxAmp (foldl (computeRow k dxSrc sources res hW) acc [0..<n])
   \<and> (\<forall>hy<n. \<forall>hx<hW. \<not> rowDy res hy < 2 \<longrightarrow>
         cellValue k dxSrc sources res (rowDy res hy) (rowDy res hy * rowDy res hy) hx
         \<le> maxAmp (foldl (computeRow k dxSrc sources res hW) acc [0..<n]))
   \<and> (maxAmp (foldl (computeRow k dxSrc sources res hW) acc [0..<n]) = maxAmp acc
      \<or> (\<exists>hy<n. \<exists>hx<hW. \<not> rowDy res hy < 2
            \<and> maxAmp (foldl (computeRow k dxSrc sources res hW) acc [0..<n])
              = cellValue k dxSrc sources res (rowDy res hy) (rowDy res hy * rowDy res hy) hx))"
proof (induction n)
  case 0
  show ?case by simp
next
  case (Suc n)
  let ?acc' = "foldl (computeRow k dxSrc sources res hW) acc [0..<n]"
  let ?c = "\<lambda>hy. cellValue k dxSrc sources res (rowDy res hy) (rowDy res hy * rowDy res hy)"
  let ?new = "computeRow k dxSrc sources res hW ?acc' n"
  have step: "foldl (computeRow k dxSrc sources res hW) acc [0..<Suc n] = ?new" by simp
  have ih: "maxAmp acc \<le> maxAmp ?acc'"
    "\<forall>hy<n. \<forall>hx<hW. \<not> rowDy res hy < 2 \<longrightarrow> ?c hy hx \<le> maxAmp ?acc'"
    "maxAmp ?acc' = maxAmp acc
      \<or> (\<exists>hy<n. \<exists>hx<hW. \<not> rowDy res hy < 2 \<and> maxAmp ?acc' = ?c hy hx)"
    using Suc.IH by blast+
  have row: "maxAmp ?acc' \<le> maxAmp ?new
    \<and> (\<not> rowDy res n < 2 \<longrightarrow> (\<forall>hx<hW. ?c n hx \<le> maxAmp ?new))
    \<and> (maxAmp ?new = maxAmp ?acc'
       \<or> (\<not> rowDy res n < 2 \<and> (\<exists>hx<hW. maxAmp ?new = ?c n hx)))"
  proof (cases "rowDy res n < 2")
    case True
    then show ?thesis by (simp add: computeRow_cases)
  next
    case False
    then show ?thesis
      using maxAmp_cells [of ?acc' k dxSrc sources res "rowDy res n"
          "rowDy res n * rowDy res n" "n * hW" hW]
      by (simp add: computeRow_cases)
  qed
  have a: "maxAmp acc \<le> maxAmp ?new" using ih(1) row by linarith
  have b: "\<forall>hy<Suc n. \<forall>hx<hW. \<not> rowDy res hy < 2 \<longrightarrow> ?c hy hx \<le> maxAmp ?new"
  proof (intro allI impI)
    fix hy hx assume h: "hy < Suc n" "hx < hW" "\<not> rowDy res hy < 2"
    from h(1) consider "hy < n" | "hy = n" by linarith
    then show "?c hy hx \<le> maxAmp ?new"
    proof cases
      case 1
      with ih(2) h have "?c hy hx \<le> maxAmp ?acc'" by blast
      with row show ?thesis by linarith
    next
      case 2
      with row h show ?thesis by blast
    qed
  qed
  have c: "maxAmp ?new = maxAmp acc
      \<or> (\<exists>hy<Suc n. \<exists>hx<hW. \<not> rowDy res hy < 2 \<and> maxAmp ?new = ?c hy hx)"
  proof -
    from row consider "maxAmp ?new = maxAmp ?acc'"
      | "\<not> rowDy res n < 2 \<and> (\<exists>hx<hW. maxAmp ?new = ?c n hx)" by blast
    then show ?thesis
    proof cases
      case 1
      from ih(3) show ?thesis
      proof
        assume "maxAmp ?acc' = maxAmp acc"
        with 1 show ?thesis by simp
      next
        assume "\<exists>hy<n. \<exists>hx<hW. \<not> rowDy res hy < 2 \<and> maxAmp ?acc' = ?c hy hx"
        then obtain hy hx where "hy < n" "hx < hW" "\<not> rowDy res hy < 2"
          "maxAmp ?acc' = ?c hy hx" by blast
        with 1 have "hy < Suc n" "hx < hW" "\<not> rowDy res hy < 2" "maxAmp ?new = ?c hy hx"
          by simp_all
        then show ?thesis by blast
      qed
    next
      case 2
      then obtain hx where "hx < hW" "maxAmp ?new = ?c n hx" "\<not> rowDy res n < 2" by blast
      moreover have "n < Suc n" by simp
      ultimately show ?thesis by blast
    qed
  qed
  show ?case unfolding step using a b c by blast
qed

lemma fieldBuffers_fold:
  "fieldBuffers this =
     foldl (computeRow ((2 * pi) / ds_wavelength this)
              ((ds_slitWidth this * ds_wavelength this)
                 / real (nat (max 10 (js_round (ds_slitWidth this * 12)))))
              (ds_sources (computeField this)) (ds_res (computeField this))
              (ds_hW (computeField this)))
       \<lparr>fR = replicate (ds_hBY (computeField this) * ds_hW (computeField this)) 0,
        fI = replicate (ds_hBY (computeField this) * ds_hW (computeField this)) 0,
        fA = replicate (ds_hBY (computeField this) * ds_hW (computeField this)) 0,
        maxAmp = 0\<rparr>
       [0..<ds_hBY (computeField this)]"
  by (simp add: fieldBuffers_def Let_def computeField_dims_raw sources_computeField)

lemma maxAmp_fieldBuffers:
  "(\<forall>hy < ds_hBY (computeField this). \<forall>hx < ds_hW (computeField this).
       fA (fieldBuffers this) ! (hy * ds_hW (computeField this) + hx) \<le> maxAmp (fieldBuffers this))
   \<and> (maxAmp (fieldBuffers this) = 0
      \<or> (\<exists>hy < ds_hBY (computeField this). \<exists>hx < ds_hW (computeField this).
            \<not> rowDy (ds_res (computeField this)) hy < 2
            \<and> maxAmp (fieldBuffers this)
              = fA (fieldBuffers this) ! (hy * ds_hW (computeField this) + hx)))"
proof -
  let ?hW = "ds_hW (computeField this)" and ?hBY = "ds_hBY (computeField this)"
  let ?res = "ds_res (computeField this)"
  let ?k = "(2 * pi) / ds_wavelength this"
  let ?d = "(ds_slitWidth this * ds_wavelength this)
              / real (nat (max 10 (js_round (ds_slitWidth this * 12))))"
  let ?src = "ds_sources (computeField this)"
  let ?init = "\<lparr>fR = replicate (?hBY * ?hW) 0, fI = replicate (?hBY * ?hW) 0,
                 fA = replicate (?hBY * ?hW) (0::real), maxAmp = 0\<rparr>"
  let ?c = "\<lambda>hy. cellValue ?k ?d ?src ?res (rowDy ?res hy) (rowDy ?res hy * rowDy ?res hy)"
  let ?M = "maxAmp (fieldBuffers this)"
  note rows = maxAmp_rows [of ?init ?k ?d ?src ?res ?hW ?hBY, folded fieldBuffers_fold]
  have m0: "0 \<le> ?M" using rows by simp
  have le: "\<forall>hy<?hBY. \<forall>hx<?hW. \<not> rowDy ?res hy < 2 \<longrightarrow> ?c hy hx \<le> ?M"
    using rows by blast
  have att: "?M = 0 \<or> (\<exists>hy<?hBY. \<exists>hx<?hW. \<not> rowDy ?res hy < 2 \<and> ?M = ?c hy hx)"
    using rows by simp
  have cell: "fA (fieldBuffers this) ! (hy * ?hW + hx)
      = (if rowDy ?res hy < 2 then 0 else ?c hy hx)" if "hy < ?hBY" "hx < ?hW" for hy hx
    using that by (rule fieldAmp_cell)
  have a: "\<forall>hy<?hBY. \<forall>hx<?hW. fA (fieldBuffers this) ! (hy * ?hW + hx) \<le> ?M"
    using cell le m0 by simp
  have b: "?M = 0 \<or> (\<exists>hy<?hBY. \<exists>hx<?hW. \<not> rowDy ?res hy < 2
      \<and> ?M = fA (fieldBuffers this) ! (hy * ?hW + hx))"
  proof -
    from att show ?thesis
    proof
      assume "?M = 0" then show ?thesis by simp
    next
      assume "\<exists>hy<?hBY. \<exists>hx<?hW. \<not> rowDy ?res hy < 2 \<and> ?M = ?c hy hx"
      then obtain hy hx where h: "hy < ?hBY" "hx < ?hW" "\<not> rowDy ?res hy < 2" "?M = ?c hy hx"
        by blast
      then have "?M = fA (fieldBuffers this) ! (hy * ?hW + hx)" using cell by simp
      with h show ?thesis by blast
    qed
  qed
  show ?thesis using a b by blast
qed

subsection \<open>A cell of the default field that is not dark\<close>

lemma apertureSources_inside:
  assumes "s \<in> set (apertureSources N (l, r))" "l < r"
  shows "l < s \<and> s < r"
proof -
  from assms(1) obtain j where j: "j < N" and s: "s = l + (real j + 1 / 2) * ((r - l) / real N)"
    by (auto simp: apertureSources_def)
  from j have n: "0 < real N" by simp
  define f where "f = (real j + 1 / 2) / real N"
  have f0: "0 < f" using n by (simp add: f_def)
  have "real j + 1 / 2 < real N"
  proof -
    from j have "Suc j \<le> N" by simp
    then have "real (Suc j) \<le> real N" by (simp only: of_nat_le_iff)
    then show ?thesis by simp
  qed
  then have f1: "f < 1" using n by (simp add: f_def)
  have eq: "s = l + f * (r - l)" by (simp add: s f_def)
  have "0 < f * (r - l)" using f0 assms(2) by simp
  moreover have "f * (r - l) < 1 * (r - l)" using f1 assms(2) by (intro mult_strict_right_mono) simp_all
  ultimately show ?thesis unfolding eq by simp
qed

lemma sum_list_pos:
  fixes f :: "'a \<Rightarrow> real"
  assumes "xs \<noteq> []" "\<And>x. x \<in> set xs \<Longrightarrow> 0 < f x"
  shows "0 < (\<Sum>x\<leftarrow>xs. f x)"
  using assms
proof (induction xs)
  case Nil
  then show ?case by simp
next
  case (Cons x xs)
  have "0 < f x" using Cons.prems(2) by simp
  moreover have "0 \<le> (\<Sum>x\<leftarrow>xs. f x)"
    by (rule sum_list_nonneg) (use Cons.prems(2) in \<open>auto intro: less_imp_le\<close>)
  ultimately show ?case by simp
qed

lemma wavelet_projection:
  assumes "0 < dy" "0 < q + dy2"
  shows "waveletRe k dy dy2 q * cos phi + waveletIm k dy dy2 q * sin phi
       = dy / (sqrt (q + dy2) * sqrt (sqrt (q + dy2))) * cos (k * sqrt (q + dy2) - phi)"
  by (simp add: waveletRe_def waveletIm_def Let_def cos_diff algebra_simps)

lemma wavelet_projection_pos:
  assumes "1600 < q" "q < 3600"
  shows "0 < waveletRe (pi / 10) 300 90000 q * cos (pi / 10 * 302)
           + waveletIm (pi / 10) 300 90000 q * sin (pi / 10 * 302)"
proof -
  let ?r = "sqrt (q + 90000)"
  have "302\<^sup>2 < q + 90000" using assms(1) by simp
  then have lo: "302 < ?r" by (rule real_less_rsqrt)
  have "q + 90000 < 306\<^sup>2" using assms(2) by simp
  then have hi: "?r < 306" by (intro real_less_lsqrt) simp_all
  have r0: "0 < ?r" using lo by linarith
  have "0 < pi / 10 * (?r - 302)" using lo by simp
  moreover have "pi / 10 * (?r - 302) < pi / 10 * 4" using hi by simp
  then have "pi / 10 * (?r - 302) < pi / 2" by simp
  ultimately have pos: "0 < cos (pi / 10 * (?r - 302))" by (intro cos_gt_zero) simp_all
  have eq: "pi / 10 * (?r - 302) = pi / 10 * ?r - pi / 10 * 302" by (simp add: algebra_simps)
  have c: "0 < cos (pi / 10 * ?r - pi / 10 * 302)" using pos unfolding eq .
  have "0 < sqrt ?r" using r0 by (simp only: real_sqrt_gt_0_iff)
  with r0 have "0 < ?r * sqrt ?r" by (rule mult_pos_pos)
  then have a: "0 < 300 / (?r * sqrt ?r)" by (simp only: zero_less_divide_iff) simp
  have "waveletRe (pi / 10) 300 90000 q * cos (pi / 10 * 302)
           + waveletIm (pi / 10) 300 90000 q * sin (pi / 10 * 302)
      = 300 / (?r * sqrt ?r) * cos (pi / 10 * ?r - pi / 10 * 302)"
    using assms(1) by (intro wavelet_projection) simp_all
  also have "0 < \<dots>" using a c by (rule mult_pos_pos)
  finally show ?thesis .
qed

lemma initial_sources:
  "ds_sources (computeField initialSlit)
     = apertureSources 12 (340, 360) @ apertureSources 12 (440, 460)"
proof -
  have n: "nat (max 10 (js_round (ds_slitWidth initialSlit * 12))) = 12"
    by (simp add: initialSlit_def js_round_def)
  have r: "getSlitRanges initialSlit = [(340, 360), (440, 460)]"
    by (simp add: getSlitRanges_def Let_def initialSlit_def canvas_W_def)
  show ?thesis by (simp add: sources_computeField buildSources_eq n r)
qed

lemma initial_source_distance:
  assumes "s \<in> set (ds_sources (computeField initialSlit))"
  shows "1600 < (400 - s) * (400 - s) \<and> (400 - s) * (400 - s) < 3600"
proof -
  from assms consider "s \<in> set (apertureSources 12 (340, 360))"
    | "s \<in> set (apertureSources 12 (440, 460))"
    by (auto simp: initial_sources)
  then show ?thesis
  proof cases
    case 1
    then have "340 < s \<and> s < 360" by (rule apertureSources_inside) simp
    then have b: "40 < 400 - s" "400 - s < 60" by simp_all
    have "40 * 40 < (400 - s) * (400 - s)" using b(1) by (intro mult_strict_mono) simp_all
    moreover have "(400 - s) * (400 - s) < 60 * 60" using b by (intro mult_strict_mono) simp_all
    ultimately show ?thesis by simp
  next
    case 2
    then have "440 < s \<and> s < 460" by (rule apertureSources_inside) simp
    then have b: "40 < s - 400" "s - 400 < 60" by simp_all
    have "40 * 40 < (s - 400) * (s - 400)" using b(1) by (intro mult_strict_mono) simp_all
    moreover have "(s - 400) * (s - 400) < 60 * 60" using b by (intro mult_strict_mono) simp_all
    moreover have "(s - 400) * (s - 400) = (400 - s) * (400 - s)" by (simp add: algebra_simps)
    ultimately show ?thesis by simp
  qed
qed

lemma initial_cell_positive:
  "0 < cellValue (pi / 10) (5 / 3) (ds_sources (computeField initialSlit)) 1 300 90000 400"
proof -
  let ?src = "ds_sources (computeField initialSlit)"
  let ?re = "\<lambda>s. waveletRe (pi / 10) 300 90000 ((400 - s) * (400 - s))"
  let ?im = "\<lambda>s. waveletIm (pi / 10) 300 90000 ((400 - s) * (400 - s))"
  let ?uR = "\<Sum>s\<leftarrow>?src. ?re s" and ?uI = "\<Sum>s\<leftarrow>?src. ?im s"
  have ne: "?src \<noteq> []" by (simp add: initial_sources apertureSources_def)
  have "0 < (\<Sum>s\<leftarrow>?src. ?re s * cos (pi / 10 * 302) + ?im s * sin (pi / 10 * 302))"
  proof (rule sum_list_pos [OF ne])
    fix s assume "s \<in> set ?src"
    then have "1600 < (400 - s) * (400 - s) \<and> (400 - s) * (400 - s) < 3600"
      by (rule initial_source_distance)
    then show "0 < ?re s * cos (pi / 10 * 302) + ?im s * sin (pi / 10 * 302)"
      by (intro wavelet_projection_pos) simp_all
  qed
  also have "(\<Sum>s\<leftarrow>?src. ?re s * cos (pi / 10 * 302) + ?im s * sin (pi / 10 * 302))
      = ?uR * cos (pi / 10 * 302) + ?uI * sin (pi / 10 * 302)"
    by (simp add: sum_list_addf sum_list_mult_const)
  finally have proj: "0 < ?uR * cos (pi / 10 * 302) + ?uI * sin (pi / 10 * 302)" .
  have "\<not> (?uR = 0 \<and> ?uI = 0)"
  proof
    assume "?uR = 0 \<and> ?uI = 0"
    then have "?uR * cos (pi / 10 * 302) + ?uI * sin (pi / 10 * 302) = 0" by simp
    with proj show False by simp
  qed
  then have "?uR \<noteq> 0 \<or> ?uI \<noteq> 0" by blast
  then have "0 < ?uR\<^sup>2 + ?uI\<^sup>2" by (simp only: sum_power2_gt_zero_iff)
  then have "0 < ?uR * ?uR + ?uI * ?uI" by (simp only: power2_eq_square)
  then have "0 < (?uR * ?uR + ?uI * ?uI) * (5 / 3 * (5 / 3))" by simp
  also have "(?uR * ?uR + ?uI * ?uI) * (5 / 3 * (5 / 3))
      = ?uR * (5 / 3) * (?uR * (5 / 3)) + ?uI * (5 / 3) * (?uI * (5 / 3))"
    by (simp add: algebra_simps)
  finally have "0 < sqrt (?uR * (5 / 3) * (?uR * (5 / 3)) + ?uI * (5 / 3) * (?uI * (5 / 3)))"
    by simp
  then show ?thesis
    by (simp add: cellValue_def foldl_addWavelet Let_def)
qed

subsection \<open>The slit mask and the row next to the barrier\<close>

lemma mark_columns:
  "length (foldl (\<lambda>m x. m[nat x := True]) m xs) = length m
   \<and> (\<forall>i < length m. foldl (\<lambda>m x. m[nat x := True]) m xs ! i = (m ! i \<or> i \<in> nat ` set xs))"
proof (induction xs arbitrary: m)
  case Nil
  show ?case by simp
next
  case (Cons x xs)
  have "length (foldl (\<lambda>m x. m[nat x := True]) (m[nat x := True]) xs) = length (m[nat x := True])
   \<and> (\<forall>i < length (m[nat x := True]).
        foldl (\<lambda>m x. m[nat x := True]) (m[nat x := True]) xs ! i
          = ((m[nat x := True]) ! i \<or> i \<in> nat ` set xs))"
    by (rule Cons.IH)
  then have len: "length (foldl (\<lambda>m x. m[nat x := True]) (m[nat x := True]) xs) = length m"
    and cols: "\<And>i. i < length m \<Longrightarrow>
        foldl (\<lambda>m x. m[nat x := True]) (m[nat x := True]) xs ! i
          = ((m[nat x := True]) ! i \<or> i \<in> nat ` set xs)"
    by simp_all
  have "foldl (\<lambda>m x. m[nat x := True]) (m[nat x := True]) xs ! i
      = (m ! i \<or> i \<in> nat ` set (x # xs))" if i: "i < length m" for i
  proof (cases "i = nat x")
    case True
    then show ?thesis using i by (simp add: cols)
  next
    case False
    then show ?thesis using i by (auto simp: cols)
  qed
  then show ?case using len by simp
qed

lemma markSlit_columns:
  "length (markSlit W m slit) = length m
   \<and> (\<forall>i < length m. markSlit W m slit ! i
        = (m ! i \<or> (max 0 \<lfloor>fst slit\<rfloor> \<le> int i \<and> int i < min (int W) \<lceil>snd slit\<rceil>)))"
proof -
  obtain l r where s: "slit = (l, r)" by (cases slit)
  have "(i \<in> nat ` set [max 0 \<lfloor>l\<rfloor>..min (int W) \<lceil>r\<rceil> - 1])
      = (max 0 \<lfloor>l\<rfloor> \<le> int i \<and> int i < min (int W) \<lceil>r\<rceil>)" for i
  proof
    assume "i \<in> nat ` set [max 0 \<lfloor>l\<rfloor>..min (int W) \<lceil>r\<rceil> - 1]"
    then obtain x where x: "i = nat x" "max 0 \<lfloor>l\<rfloor> \<le> x" "x \<le> min (int W) \<lceil>r\<rceil> - 1" by auto
    then have "0 \<le> x" by simp
    with x show "max 0 \<lfloor>l\<rfloor> \<le> int i \<and> int i < min (int W) \<lceil>r\<rceil>" by simp
  next
    assume a: "max 0 \<lfloor>l\<rfloor> \<le> int i \<and> int i < min (int W) \<lceil>r\<rceil>"
    then have "int i \<in> set [max 0 \<lfloor>l\<rfloor>..min (int W) \<lceil>r\<rceil> - 1]" by simp
    moreover have "i = nat (int i)" by simp
    ultimately show "i \<in> nat ` set [max 0 \<lfloor>l\<rfloor>..min (int W) \<lceil>r\<rceil> - 1]" by (rule rev_image_eqI)
  qed
  then show ?thesis
    using mark_columns [of m "[max 0 \<lfloor>l\<rfloor>..min (int W) \<lceil>r\<rceil> - 1]"]
    by (simp add: markSlit_def s Let_def)
qed

lemma foldl_markSlit:
  "length (foldl (markSlit W) m slitRanges) = length m
   \<and> (\<forall>i < length m. foldl (markSlit W) m slitRanges ! i
        = (m ! i \<or> (\<exists>slit \<in> set slitRanges.
              max 0 \<lfloor>fst slit\<rfloor> \<le> int i \<and> int i < min (int W) \<lceil>snd slit\<rceil>)))"
proof (induction slitRanges arbitrary: m)
  case Nil
  show ?case by simp
next
  case (Cons slit slitRanges)
  note ih = Cons.IH [of "markSlit W m slit"]
  note mk = markSlit_columns [of W m slit]
  show ?case using ih mk by auto
qed

lemma buildSlitMask_columns:
  "length (buildSlitMask W slitRanges) = W
   \<and> (\<forall>i < W. buildSlitMask W slitRanges ! i
        = (\<exists>slit \<in> set slitRanges.
              max 0 \<lfloor>fst slit\<rfloor> \<le> int i \<and> int i < min (int W) \<lceil>snd slit\<rceil>))"
  using foldl_markSlit [of W "replicate W False" slitRanges]
  by (simp add: buildSlitMask_def)

lemma renderPixel_transition:
  assumes "cy < canvas_barrierY" "\<not> cy + 2 \<le> canvas_barrierY" "cx < length slitMask"
  shows "renderPixel this fieldReal fieldImag fieldAmp slitMask cx cy
       = Gray (if slitMask ! cx then 80 else 40)"
proof -
  from assms(2) have dy: "canvas_barrierY - cy < 2" by simp
  show ?thesis
    using assms(1,3) dy by (simp add: renderPixel_def Let_def)
qed

subsection \<open>The brightest pixel\<close>

lemma phase_exists:
  assumes "0 < M" "sqrt (u * u + v * v) = M"
  shows "\<exists>th. (u * cos th + v * sin th) * (1 / M) = 1"
proof -
  have "u * u + v * v = M * M"
  proof -
    have "0 \<le> u * u + v * v" by simp
    then have "sqrt (u * u + v * v) * sqrt (u * u + v * v) = u * u + v * v" by simp
    then show ?thesis by (simp add: assms(2))
  qed
  then have "(u / M)\<^sup>2 + (v / M)\<^sup>2 = 1"
    using assms(1) by (simp add: power2_eq_square field_simps)
  then obtain th where th: "u / M = cos th" "v / M = sin th"
    by (rule sincos_total_2pi)
  from th assms(1) have u: "u = M * cos th" and v: "v = M * sin th"
    by (simp_all add: field_simps)
  have one: "cos th * cos th + sin th * sin th = 1" by (rule sin_cos_squared_add3)
  have "M * cos th * cos th + M * sin th * sin th = M * (cos th * cos th + sin th * sin th)"
    by (simp only: distrib_left mult.assoc)
  also have "\<dots> = M" by (simp only: one mult_1_right)
  finally have "M * cos th * cos th + M * sin th * sin th = M" .
  then have "u * cos th + v * sin th = M" unfolding u v .
  then have "(u * cos th + v * sin th) * (1 / M) = M * (1 / M)" by simp
  also have "\<dots> = 1" using assms(1) by simp
  finally show ?thesis by blast
qed

lemma readySlit_props:
  "fieldFrom initialSlit (readySlit\<lparr>ds_time := t\<rparr>)"
  "ds_ctx (readySlit\<lparr>ds_time := t\<rparr>)"
  "ds_renderMode (readySlit\<lparr>ds_time := t\<rparr>) = ''intensity''"
  "ds_wavelength (readySlit\<lparr>ds_time := t\<rparr>) = 20"
  "ds_time (readySlit\<lparr>ds_time := t\<rparr>) = t"
  "getSlitRanges (readySlit\<lparr>ds_time := t\<rparr>) = [(340, 360), (440, 460)]"
  by (simp_all add: fieldFrom_def readySlit_def computeField_def Let_def initialSlit_def
        getSlitRanges_def canvas_W_def)

lemma initial_dims:
  "ds_res (computeField initialSlit) = 1"
  "ds_hW (computeField initialSlit) = 800"
  "ds_hBY (computeField initialSlit) = 300"
  by (simp_all add: computeField_dims_raw(1) computeField_dims initialSlit_def)

lemma initial_max_positive: "0 < maxAmp (fieldBuffers initialSlit)"
proof -
  have "\<forall>hy<300. \<forall>hx<800. fA (fieldBuffers initialSlit) ! (hy * 800 + hx)
      \<le> maxAmp (fieldBuffers initialSlit)"
    using maxAmp_fieldBuffers [of initialSlit] unfolding initial_dims by blast
  from this [rule_format, of 0 400]
  have le: "fA (fieldBuffers initialSlit) ! 400 \<le> maxAmp (fieldBuffers initialSlit)" by simp
  have k: "(2 * pi) / ds_wavelength initialSlit = pi / 10"
    and d: "(ds_slitWidth initialSlit * ds_wavelength initialSlit)
        / real (nat (max 10 (js_round (ds_slitWidth initialSlit * 12)))) = 5 / 3"
    by (simp_all add: initialSlit_def js_round_def)
  have dy: "rowDy 1 0 = 300" by (simp add: rowDy_def canvas_barrierY_def)
  have "(0::nat) < ds_hBY (computeField initialSlit)" "(400::nat) < ds_hW (computeField initialSlit)"
    by (simp_all add: initial_dims)
  from fieldAmp_cell [OF this]
  have "fA (fieldBuffers initialSlit) ! (0 * 800 + 400)
      = cellValue (pi / 10) (5 / 3) (ds_sources (computeField initialSlit)) 1 300 (300 * 300) 400"
    unfolding k d initial_dims dy by simp
  then have "fA (fieldBuffers initialSlit) ! 400
      = cellValue (pi / 10) (5 / 3) (ds_sources (computeField initialSlit)) 1 300 90000 400"
    by simp
  with le initial_cell_positive show ?thesis by simp
qed

lemma brightest_pixel:
  "\<exists>t cx cy. cx < canvas_W \<and> cy + 2 \<le> canvas_barrierY
      \<and> cellField (readySlit\<lparr>ds_time := t\<rparr>) cx cy = 1"
proof -
  let ?b = "fieldBuffers initialSlit"
  let ?M = "maxAmp ?b"
  have M: "0 < ?M" by (rule initial_max_positive)
  then have "?M \<noteq> 0" by simp
  then obtain hy hx where h: "hy < 300" "hx < 800" "\<not> rowDy 1 hy < 2"
      "?M = fA ?b ! (hy * 800 + hx)"
    using maxAmp_fieldBuffers [of initialSlit] unfolding initial_dims by blast
  from h(3) have row: "hy + 2 \<le> canvas_barrierY" by (simp add: rowDy_def)
  from h(2) have col: "hx < canvas_W" by (simp add: canvas_W_def)
  have ok: "accOK (300 * 800) ?b"
    using accOK_fieldBuffers [of initialSlit] by (simp only: initial_dims)
  have i: "hy * 800 + hx < 300 * 800" using h(1,2) by simp
  let ?u = "fR ?b ! (hy * 800 + hx)" and ?v = "fI ?b ! (hy * 800 + hx)"
  have "fA ?b ! (hy * 800 + hx) = sqrt (?u * ?u + ?v * ?v)"
    using ok i unfolding accOK_def by blast
  then have "sqrt (?u * ?u + ?v * ?v) = ?M" using h(4) by simp
  with M obtain th where th: "(?u * cos th + ?v * sin th) * (1 / ?M) = 1"
    using phase_exists by blast
  let ?t = "th * 10 / pi"
  let ?s = "readySlit\<lparr>ds_time := ?t\<rparr>"
  have ang: "(2 * pi) / 20 * ?t = th" by simp
  have idx: "cellIndex ?s hx hy = hy * 800 + hx"
    by (simp add: cellIndex_def readySlit_def initial_dims)
  have bufs: "the (ds_fieldReal ?s) = fR ?b" "the (ds_fieldImag ?s) = fI ?b"
    "ds_normScale ?s = 1 / ?M"
    using M by (simp_all add: readySlit_def computeField_buffers)
  have "cellField ?s hx hy = (?u * cos th + ?v * sin th) * (1 / ?M)"
    unfolding cellField_def idx bufs readySlit_props ang ..
  with th have "cellField ?s hx hy = 1" by simp
  with col row show ?thesis by blast
qed

lemma dark_cell:
  assumes "hy < ds_hBY (computeField this)" "hx < ds_hW (computeField this)"
    and "rowDy (ds_res (computeField this)) hy < 2"
  shows "fR (fieldBuffers this) ! (hy * ds_hW (computeField this) + hx) = 0
       \<and> fI (fieldBuffers this) ! (hy * ds_hW (computeField this) + hx) = 0"
proof -
  let ?L = "ds_hBY (computeField this) * ds_hW (computeField this)"
  let ?m = "hy * ds_hW (computeField this) + hx"
  let ?u = "fR (fieldBuffers this) ! ?m" and ?v = "fI (fieldBuffers this) ! ?m"
  have "?m < hy * ds_hW (computeField this) + ds_hW (computeField this)" using assms(2) by simp
  also have "\<dots> = Suc hy * ds_hW (computeField this)" by simp
  also have "\<dots> \<le> ?L" using assms(1) by (intro mult_le_mono1) simp
  finally have m: "?m < ?L" .
  have "fA (fieldBuffers this) ! ?m = sqrt (?u * ?u + ?v * ?v)"
    using accOK_fieldBuffers [of this] m unfolding accOK_def by blast
  moreover have "fA (fieldBuffers this) ! ?m = 0"
    using fieldAmp_cell [OF assms(1,2)] assms(3) by simp
  ultimately have "sqrt (?u\<^sup>2 + ?v\<^sup>2) = 0" by (simp add: power2_eq_square)
  then have "?u\<^sup>2 + ?v\<^sup>2 = 0" by (simp only: real_sqrt_eq_zero_cancel_iff)
  then show ?thesis by (simp only: sum_power2_eq_zero_iff)
qed

lemma transition_cell:
  "cellField readySlit 0 299 = 0"
proof -
  have r: "rowDy (ds_res (computeField initialSlit)) 299 < 2"
    by (simp add: rowDy_def initial_dims canvas_barrierY_def)
  have "(299::nat) < ds_hBY (computeField initialSlit)" "(0::nat) < ds_hW (computeField initialSlit)"
    by (simp_all add: initial_dims)
  then have z: "fR (fieldBuffers initialSlit) ! (299 * ds_hW (computeField initialSlit) + 0) = 0
       \<and> fI (fieldBuffers initialSlit) ! (299 * ds_hW (computeField initialSlit) + 0) = 0"
    using r by (rule dark_cell)
  have idx: "cellIndex readySlit 0 299 = 299 * ds_hW (computeField initialSlit) + 0"
    by (simp add: cellIndex_def readySlit_def initial_dims)
  have bufs: "the (ds_fieldReal readySlit) = fR (fieldBuffers initialSlit)"
    "the (ds_fieldImag readySlit) = fI (fieldBuffers initialSlit)"
    by (simp_all add: readySlit_def computeField_buffers)
  show ?thesis unfolding cellField_def idx bufs using z by simp
qed

text \<open>
  Claim C4, as amended. In the intensity mode, with buffers that \<open>computeField\<close> stored,
  every pixel of the diffracted region gets a gray level between 1 and 255. At least two
  rows above the barrier the level is \<open>128 + 127 * clamp field (- 1) 1\<close>, the linear map
  of the cell's clamped field value; in the row next to the barrier it is fixed, 80 in
  a slit column and 40 elsewhere.
\<close>

theorem intensity_gray_levels:
  assumes "fieldFrom this0 this" "ds_ctx this" "ds_renderMode this = ''intensity''"
    and "cx < canvas_W" "cy < canvas_barrierY"
  shows "\<exists>img g. renderFrame this = Frame img \<and> img ! cy ! cx = Gray g
     \<and> 1 \<le> g \<and> g \<le> 255
     \<and> (cy + 2 \<le> canvas_barrierY \<longrightarrow>
          g = 128 + 127 * clamp (cellField this cx cy) (- 1) 1)
     \<and> (\<not> cy + 2 \<le> canvas_barrierY \<longrightarrow>
          g = (if buildSlitMask canvas_W (getSlitRanges this) ! cx then 80 else 40))"
proof -
  let ?mask = "buildSlitMask canvas_W (getSlitRanges this)"
  let ?px = "renderPixel this (the (ds_fieldReal this)) (the (ds_fieldImag this))
          (the (ds_fieldAmp this)) ?mask cx cy"
  have cy: "cy < canvas_H" using assms(5) by (simp add: canvas_H_def canvas_barrierY_def)
  have img: "renderFrame this = Frame (map (\<lambda>cy. map (\<lambda>cx.
        renderPixel this (the (ds_fieldReal this)) (the (ds_fieldImag this))
          (the (ds_fieldAmp this)) ?mask cx cy) [0..<canvas_W]) [0..<canvas_H])"
    using assms(1,2) by (rule renderFrame_eq)
  have at: "map (\<lambda>cy. map (\<lambda>cx.
        renderPixel this (the (ds_fieldReal this)) (the (ds_fieldImag this))
          (the (ds_fieldAmp this)) ?mask cx cy) [0..<canvas_W]) [0..<canvas_H] ! cy ! cx = ?px"
    using cy assms(4) by simp
  show ?thesis
  proof (cases "cy + 2 \<le> canvas_barrierY")
    case True
    let ?g = "128 + 127 * clamp (cellField this cx cy) (- 1) 1"
    have px: "?px = Gray ?g"
      using renderPixel_diffracted [OF assms(1,4) True] assms(3) by simp
    have "- 1 \<le> clamp (cellField this cx cy) (- 1) 1 \<and> clamp (cellField this cx cy) (- 1) 1 \<le> 1"
      by (rule clamp_range)
    then have rng: "1 \<le> ?g" "?g \<le> 255" by simp_all
    show ?thesis using img at px rng True by auto
  next
    case False
    let ?g = "if ?mask ! cx then 80 else 40 :: real"
    have len: "cx < length ?mask" using assms(4) buildSlitMask_columns [of canvas_W] by simp
    have px: "?px = Gray ?g"
      using assms(5) False len by (rule renderPixel_transition)
    have rng: "1 \<le> ?g" "?g \<le> 255" by simp_all
    show ?thesis using img at px rng False by auto
  qed
qed

theorem intensity_gray_levels_witness:
  "fieldFrom initialSlit readySlit \<and> ds_ctx readySlit \<and> ds_renderMode readySlit = ''intensity''
   \<and> (0::nat) < canvas_W \<and> (0::nat) < canvas_barrierY \<and> (0::nat) + 2 \<le> canvas_barrierY
   \<and> (\<exists>img g. renderFrame readySlit = Frame img \<and> img ! 0 ! 0 = Gray g
        \<and> 1 \<le> g \<and> g \<le> 255 \<and> g = 128 + 127 * clamp (cellField readySlit 0 0) (- 1) 1)"
proof -
  have a: "fieldFrom initialSlit readySlit" by (simp add: fieldFrom_def readySlit_def)
  have b: "ds_ctx readySlit" by (simp add: readySlit_def)
  have c: "ds_renderMode readySlit = ''intensity''"
    by (simp add: readySlit_def computeField_def Let_def initialSlit_def)
  have d: "(0::nat) < canvas_W" by (simp add: canvas_W_def)
  have e: "(0::nat) < canvas_barrierY" by (simp add: canvas_barrierY_def)
  have f: "(0::nat) + 2 \<le> canvas_barrierY" by (simp add: canvas_barrierY_def)
  show ?thesis
    using a b c d e f intensity_gray_levels [OF a b c d e] by blast
qed

text \<open>
  Claim C4 as stated fails on the field computed from the constructor's values. At some
  time the pixel of the cell with the largest amplitude has the field value 1 and the
  gray level 255, above 254. In the row next to the barrier the pixel of column 0 has
  the level 40, while the linear map of its cell's field value, which is 0, is 128.
\<close>

theorem intensity_gray_counterexample:
  "(\<exists>t cx cy img. fieldFrom initialSlit (readySlit\<lparr>ds_time := t\<rparr>)
       \<and> ds_ctx (readySlit\<lparr>ds_time := t\<rparr>)
       \<and> ds_renderMode (readySlit\<lparr>ds_time := t\<rparr>) = ''intensity''
       \<and> cx < canvas_W \<and> cy + 2 \<le> canvas_barrierY
       \<and> renderFrame (readySlit\<lparr>ds_time := t\<rparr>) = Frame img
       \<and> img ! cy ! cx = Gray 255 \<and> \<not> (255 \<le> (254::real)))
   \<and> (\<exists>img. fieldFrom initialSlit readySlit \<and> ds_ctx readySlit
       \<and> ds_renderMode readySlit = ''intensity''
       \<and> (0::nat) < canvas_W \<and> (299::nat) < canvas_barrierY
       \<and> renderFrame readySlit = Frame img \<and> img ! 299 ! 0 = Gray 40
       \<and> 128 + 127 * clamp (cellField readySlit 0 299) (- 1) 1 = 128)"
proof
  obtain t cx cy where p: "cx < canvas_W" "cy + 2 \<le> canvas_barrierY"
    "cellField (readySlit\<lparr>ds_time := t\<rparr>) cx cy = 1"
    using brightest_pixel by blast
  let ?s = "readySlit\<lparr>ds_time := t\<rparr>"
  let ?mask = "buildSlitMask canvas_W (getSlitRanges ?s)"
  have f: "fieldFrom initialSlit ?s" and c: "ds_ctx ?s"
    and m: "ds_renderMode ?s = ''intensity''" by (rule readySlit_props)+
  have cy: "cy < canvas_H" using p(2) by (simp add: canvas_H_def canvas_barrierY_def)
  have "renderPixel ?s (the (ds_fieldReal ?s)) (the (ds_fieldImag ?s)) (the (ds_fieldAmp ?s))
      ?mask cx cy = Gray (128 + 127 * clamp (cellField ?s cx cy) (- 1) 1)"
    using renderPixel_diffracted [OF f p(1,2)] m by simp
  also have "\<dots> = Gray 255" by (simp add: p(3) clamp_def)
  finally have px: "renderPixel ?s (the (ds_fieldReal ?s)) (the (ds_fieldImag ?s))
      (the (ds_fieldAmp ?s)) ?mask cx cy = Gray 255" .
  have "map (\<lambda>cy. map (\<lambda>cx.
        renderPixel ?s (the (ds_fieldReal ?s)) (the (ds_fieldImag ?s))
          (the (ds_fieldAmp ?s)) ?mask cx cy) [0..<canvas_W]) [0..<canvas_H] ! cy ! cx = Gray 255"
    using cy p(1) px by simp
  then show "\<exists>t cx cy img. fieldFrom initialSlit (readySlit\<lparr>ds_time := t\<rparr>)
       \<and> ds_ctx (readySlit\<lparr>ds_time := t\<rparr>)
       \<and> ds_renderMode (readySlit\<lparr>ds_time := t\<rparr>) = ''intensity''
       \<and> cx < canvas_W \<and> cy + 2 \<le> canvas_barrierY
       \<and> renderFrame (readySlit\<lparr>ds_time := t\<rparr>) = Frame img
       \<and> img ! cy ! cx = Gray 255 \<and> \<not> (255 \<le> (254::real))"
    using f c m p(1,2) renderFrame_eq [OF f c] by auto
next
  let ?mask = "buildSlitMask canvas_W (getSlitRanges readySlit)"
  have f: "fieldFrom initialSlit readySlit" by (simp add: fieldFrom_def readySlit_def)
  have c: "ds_ctx readySlit" by (simp add: readySlit_def)
  have m: "ds_renderMode readySlit = ''intensity''"
    by (simp add: readySlit_def computeField_def Let_def initialSlit_def)
  have w: "(0::nat) < canvas_W" by (simp add: canvas_W_def)
  have y: "(299::nat) < canvas_barrierY" "\<not> (299::nat) + 2 \<le> canvas_barrierY"
    "(299::nat) < canvas_H"
    by (simp_all add: canvas_barrierY_def canvas_H_def)
  have r: "getSlitRanges readySlit = [(340, 360), (440, 460)]"
    by (simp add: readySlit_def computeField_def Let_def initialSlit_def
          getSlitRanges_def canvas_W_def)
  have len: "0 < length ?mask" using w buildSlitMask_columns [of canvas_W] by simp
  have "?mask ! 0 = (\<exists>slit \<in> set (getSlitRanges readySlit).
      max 0 \<lfloor>fst slit\<rfloor> \<le> int 0 \<and> int 0 < min (int canvas_W) \<lceil>snd slit\<rceil>)"
    using w buildSlitMask_columns [of canvas_W "getSlitRanges readySlit"] by blast
  then have out: "\<not> ?mask ! 0" by (simp add: r)
  have "renderPixel readySlit (the (ds_fieldReal readySlit)) (the (ds_fieldImag readySlit))
      (the (ds_fieldAmp readySlit)) ?mask 0 299 = Gray (if ?mask ! 0 then 80 else 40)"
    using y(1,2) len by (rule renderPixel_transition)
  then have px: "renderPixel readySlit (the (ds_fieldReal readySlit))
      (the (ds_fieldImag readySlit)) (the (ds_fieldAmp readySlit)) ?mask 0 299 = Gray 40"
    using out by simp
  have at: "map (\<lambda>cy. map (\<lambda>cx.
        renderPixel readySlit (the (ds_fieldReal readySlit)) (the (ds_fieldImag readySlit))
          (the (ds_fieldAmp readySlit)) ?mask cx cy) [0..<canvas_W]) [0..<canvas_H] ! 299 ! 0
      = Gray 40"
    using y(3) w px by simp
  have lin: "128 + 127 * clamp (cellField readySlit 0 299) (- 1) 1 = 128"
    by (simp add: transition_cell clamp_def)
  show "\<exists>img. fieldFrom initialSlit readySlit \<and> ds_ctx readySlit
       \<and> ds_renderMode readySlit = ''intensity''
       \<and> (0::nat) < canvas_W \<and> (299::nat) < canvas_barrierY
       \<and> renderFrame readySlit = Frame img \<and> img ! 299 ! 0 = Gray 40
       \<and> 128 + 127 * clamp (cellField readySlit 0 299) (- 1) 1 = 128"
    using f c m w y(1) at lin renderFrame_eq [OF f c] by auto
qed

end
